theory Spec2Isabelle
  imports Main
begin

section \<open>JavaScript values\<close>

text \<open>
  A string is the list of its UTF-16 code units; \<open>str\<close> writes one from its characters.
\<close>

type_synonym jsstring = "nat list"

abbreviation ch :: "char \<Rightarrow> nat" where
  "ch \<equiv> of_char"

definition str :: "string \<Rightarrow> jsstring" where
  "str s = map ch s"

text \<open>
  A finite number is held as the decimal that Number::toString writes for it, the
  shortest one that denotes it: a sign, a coefficient \<open>s\<close> and an exponent \<open>e\<close> for the value
  \<open>s * 10 ^ e\<close>, canonical when \<open>s\<close> does not end in a zero digit (and \<open>e = 0\<close> when \<open>s = 0\<close>).
  So \<open>0.1\<close> is \<open>Number False 1 (- 1)\<close>, \<open>2 ^ 64\<close> is \<open>Number False 18446744073709552 3\<close>, and
  \<open>Number True 0 0\<close> is the negative zero. Every finite number is one canonical decimal;
  a canonical decimal with more digits or a larger exponent than a number holds is no
  number, and what is proved of all canonical decimals holds of the numbers among them.
\<close>

datatype number = Number (negative: bool) (coefficient: nat) (exponent: int)

definition canonical :: "number \<Rightarrow> bool" where
  "canonical x =
     (if coefficient x = 0 then exponent x = 0 else coefficient x mod 10 \<noteq> 0)"

text \<open>Trailing zero digits of a coefficient move into the exponent.\<close>

function normalize :: "nat \<Rightarrow> int \<Rightarrow> nat \<times> int" where
  "normalize s e =
     (if s = 0 then (0, 0)
      else if s mod 10 = 0 then normalize (s div 10) (e + 1)
      else (s, e))"
  by pat_completeness auto
termination
  by (relation "measure (\<lambda>(s, e). s)") auto

declare normalize.simps [simp del]

definition number_of_int :: "int \<Rightarrow> number" where
  "number_of_int i = (case normalize (nat \<bar>i\<bar>) 0 of (s, e) \<Rightarrow> Number (i < 0) s e)"

text \<open>
  The chain is typed \<open>any\<close> at every boundary, so the model works over one type of runtime
  values. An array is the list of its elements; an object is the list of its own
  enumerable string-keyed data properties, in enumeration order. A function value carries
  no behaviour, so an object whose \<open>toJSON\<close> is a function (a \<open>Date\<close>, say) has no
  counterpart among these values. \<open>JCircular\<close> stands at a position that refers back to
  an object or array enclosing it (what \<open>a.self = a\<close> builds).
\<close>

datatype jsval =
    JUndefined
  | JNull
  | JBool bool
  | JNumber number
  | JNaN
  | JInfinity
  | JNegInfinity
  | JBigInt int
  | JString jsstring
  | JSymbol
  | JFunction
  | JArray "jsval list"
  | JObject "(jsstring \<times> jsval) list"
  | JCircular

datatype error = TypeError | SyntaxError

text \<open>ToBoolean, which decides \<open>a || b\<close>.\<close>

fun truthy :: "jsval \<Rightarrow> bool" where
  "truthy JUndefined = False"
| "truthy JNull = False"
| "truthy (JBool b) = b"
| "truthy (JNumber x) = (coefficient x \<noteq> 0)"
| "truthy JNaN = False"
| "truthy (JBigInt n) = (n \<noteq> 0)"
| "truthy (JString s) = (s \<noteq> [])"
| "truthy _ = True"

definition js_or :: "jsval \<Rightarrow> jsval \<Rightarrow> jsval" where
  "js_or a b = (if truthy a then a else b)"

section \<open>JSON.stringify\<close>

text \<open>Decimal digits of a natural number, most significant first.\<close>

definition digit_char :: "nat \<Rightarrow> nat" where
  "digit_char d = 48 + d"

fun digits :: "nat \<Rightarrow> jsstring" where
  "digits n = (if n < 10 then [digit_char n] else digits (n div 10) @ [digit_char (n mod 10)])"

declare digits.simps [simp del]

text \<open>
  Number::toString of a positive finite number with digits \<open>m\<close> of the coefficient, \<open>k\<close> of
  them, and \<open>n = e + k\<close>: the digits and \<open>n - k\<close> zeros when \<open>k \<le> n \<le> 21\<close>; the digits with a
  point after the first \<open>n\<close> when \<open>0 < n \<le> 21\<close>; \<open>0.\<close>, \<open>- n\<close> zeros and the digits when
  \<open>- 6 < n \<le> 0\<close>; and otherwise the exponent form, with a point after the first digit when
  there are more.
\<close>

definition unsigned_to_string :: "nat \<Rightarrow> int \<Rightarrow> jsstring" where
  "unsigned_to_string s e =
     (let m = digits s; k = int (length m); n = e + k
      in if k \<le> n \<and> n \<le> 21 then m @ replicate (nat (n - k)) (ch CHR ''0'')
         else if 0 < n \<and> n \<le> 21 then take (nat n) m @ ch CHR ''.'' # drop (nat n) m
         else if - 6 < n \<and> n \<le> 0 then
           ch CHR ''0'' # ch CHR ''.'' # replicate (nat (- n)) (ch CHR ''0'') @ m
         else
           (if k = 1 then m else hd m # ch CHR ''.'' # tl m)
           @ ch CHR ''e'' # (if 0 < n - 1 then ch CHR ''+'' else ch CHR ''-'')
           # digits (nat \<bar>n - 1\<bar>))"

definition number_to_string :: "number \<Rightarrow> jsstring" where
  "number_to_string x =
     (if coefficient x = 0 then str ''0''
      else if negative x then ch CHR ''-'' # unsigned_to_string (coefficient x) (exponent x)
      else unsigned_to_string (coefficient x) (exponent x))"

text \<open>
  QuoteJSONString. A code unit of the escape table is written as its two-character
  escape, another one below \<open>0x20\<close> and a surrogate that is not half of a pair as
  \<open>\uXXXX\<close> in lower-case hexadecimal, and every other code unit as itself.
\<close>

definition hex_char :: "nat \<Rightarrow> nat" where
  "hex_char d = (if d < 10 then 48 + d else 87 + d)"

definition unicode_escape :: "nat \<Rightarrow> jsstring" where
  "unicode_escape c =
     [ch CHR 0x5C, ch CHR ''u'', hex_char (c div 4096 mod 16), hex_char (c div 256 mod 16),
      hex_char (c div 16 mod 16), hex_char (c mod 16)]"

definition is_lead :: "nat \<Rightarrow> bool" where
  "is_lead c \<longleftrightarrow> 0xD800 \<le> c \<and> c \<le> 0xDBFF"

definition is_trail :: "nat \<Rightarrow> bool" where
  "is_trail c \<longleftrightarrow> 0xDC00 \<le> c \<and> c \<le> 0xDFFF"

definition quote_char :: "nat \<Rightarrow> jsstring" where
  "quote_char c =
     (if c = 0x08 then [ch CHR 0x5C, ch CHR ''b'']
      else if c = 0x09 then [ch CHR 0x5C, ch CHR ''t'']
      else if c = 0x0A then [ch CHR 0x5C, ch CHR ''n'']
      else if c = 0x0C then [ch CHR 0x5C, ch CHR ''f'']
      else if c = 0x0D then [ch CHR 0x5C, ch CHR ''r'']
      else if c = 0x22 then [ch CHR 0x5C, ch CHR 0x22]
      else if c = 0x5C then [ch CHR 0x5C, ch CHR 0x5C]
      else if c < 0x20 \<or> is_lead c \<or> is_trail c then unicode_escape c
      else [c])"

fun quote_chars :: "jsstring \<Rightarrow> jsstring" where
  "quote_chars [] = []"
| "quote_chars [c] = quote_char c"
| "quote_chars (c # d # cs) =
     (if is_lead c \<and> is_trail d then c # d # quote_chars cs
      else quote_char c @ quote_chars (d # cs))"

definition QuoteJSONString :: "jsstring \<Rightarrow> jsstring" where
  "QuoteJSONString s = ch CHR 0x22 # quote_chars s @ [ch CHR 0x22]"

fun join_comma :: "jsstring list \<Rightarrow> jsstring" where
  "join_comma [] = []"
| "join_comma [s] = s"
| "join_comma (s # t # ss) = s @ ch CHR '','' # join_comma (t # ss)"

text \<open>
  SerializeJSONProperty, SerializeJSONArray and SerializeJSONObject. The result
  \<open>Inl TypeError\<close> is the thrown exception, \<open>Inr None\<close> is \<open>undefined\<close>, and
  \<open>Inr (Some s)\<close> is the JSON text \<open>s\<close>. An array element that serializes to
  \<open>undefined\<close> is written \<open>null\<close>; an object property that does is left out.
\<close>

fun SerializeJSONProperty :: "jsval \<Rightarrow> error + jsstring option"
  and SerializeJSONArray :: "jsval list \<Rightarrow> error + jsstring list"
  and SerializeJSONObject :: "(jsstring \<times> jsval) list \<Rightarrow> error + jsstring list"
where
  "SerializeJSONProperty JUndefined = Inr None"
| "SerializeJSONProperty JNull = Inr (Some (str ''null''))"
| "SerializeJSONProperty (JBool b) = Inr (Some (if b then str ''true'' else str ''false''))"
| "SerializeJSONProperty (JNumber x) = Inr (Some (number_to_string x))"
| "SerializeJSONProperty JNaN = Inr (Some (str ''null''))"
| "SerializeJSONProperty JInfinity = Inr (Some (str ''null''))"
| "SerializeJSONProperty JNegInfinity = Inr (Some (str ''null''))"
| "SerializeJSONProperty (JBigInt n) = Inl TypeError"
| "SerializeJSONProperty (JString s) = Inr (Some (QuoteJSONString s))"
| "SerializeJSONProperty JSymbol = Inr None"
| "SerializeJSONProperty JFunction = Inr None"
| "SerializeJSONProperty (JArray vs) =
     (case SerializeJSONArray vs of
        Inl e \<Rightarrow> Inl e
      | Inr ss \<Rightarrow> Inr (Some (ch CHR ''['' # join_comma ss @ [ch CHR '']''])))"
| "SerializeJSONProperty (JObject ps) =
     (case SerializeJSONObject ps of
        Inl e \<Rightarrow> Inl e
      | Inr ss \<Rightarrow> Inr (Some (ch CHR ''{'' # join_comma ss @ [ch CHR ''}''])))"
| "SerializeJSONProperty JCircular = Inl TypeError"
| "SerializeJSONArray [] = Inr []"
| "SerializeJSONArray (v # vs) =
     (case SerializeJSONProperty v of
        Inl e \<Rightarrow> Inl e
      | Inr r \<Rightarrow>
          (case SerializeJSONArray vs of
             Inl e \<Rightarrow> Inl e
           | Inr ss \<Rightarrow> Inr ((case r of None \<Rightarrow> str ''null'' | Some s \<Rightarrow> s) # ss)))"
| "SerializeJSONObject [] = Inr []"
| "SerializeJSONObject ((k, v) # ps) =
     (case SerializeJSONProperty v of
        Inl e \<Rightarrow> Inl e
      | Inr r \<Rightarrow>
          (case SerializeJSONObject ps of
             Inl e \<Rightarrow> Inl e
           | Inr ss \<Rightarrow>
               Inr ((case r of
                       None \<Rightarrow> []
                     | Some s \<Rightarrow> [QuoteJSONString k @ ch CHR '':'' # s]) @ ss)))"

text \<open>\<open>JSON.stringify(value)\<close> as the caller sees it: a string, \<open>undefined\<close>, or a throw.\<close>

definition JSON_stringify :: "jsval \<Rightarrow> error + jsval" where
  "JSON_stringify v =
     (case SerializeJSONProperty v of
        Inl e \<Rightarrow> Inl e
      | Inr None \<Rightarrow> Inr JUndefined
      | Inr (Some s) \<Rightarrow> Inr (JString s))"

section \<open>JSON.parse\<close>

text \<open>
  The repository never parses what it stored; the round-trip law of the specification
  speaks of the value that the returned text deserializes to, so the deserialization is
  modelled here: the JSON grammar, with whitespace, every escape, and number literals with
  fraction and exponent. A number literal is read as the decimal it writes, which is the
  number itself for every literal that Number::toString wrote (a literal with more digits
  than a number holds is not rounded). The recursion is bounded by fuel; every recursive call follows at least one consumed character, and \<open>JSON_parse\<close>
  supplies one more than the length of the text.
\<close>

definition is_ws :: "nat \<Rightarrow> bool" where
  "is_ws c \<longleftrightarrow> c = 0x20 \<or> c = 0x09 \<or> c = 0x0A \<or> c = 0x0D"

definition skip_ws :: "jsstring \<Rightarrow> jsstring" where
  "skip_ws s = dropWhile is_ws s"

definition is_digit :: "nat \<Rightarrow> bool" where
  "is_digit c \<longleftrightarrow> 48 \<le> c \<and> c \<le> 57"

definition digit_val :: "nat \<Rightarrow> nat" where
  "digit_val c = c - 48"

definition nat_of_digits :: "jsstring \<Rightarrow> nat" where
  "nat_of_digits ds = foldl (\<lambda>n c. 10 * n + digit_val c) 0 ds"

text \<open>The integer part: \<open>0\<close>, or digits that do not begin with \<open>0\<close>.\<close>

definition parse_int_part :: "jsstring \<Rightarrow> (jsstring \<times> jsstring) option" where
  "parse_int_part s =
     (let ds = takeWhile is_digit s
      in if ds = [] then None
         else if hd ds = ch CHR ''0'' \<and> tl ds \<noteq> [] then None
         else Some (ds, dropWhile is_digit s))"

text \<open>The fraction, if there is one: a point and at least one digit.\<close>

definition parse_frac :: "jsstring \<Rightarrow> (jsstring \<times> jsstring) option" where
  "parse_frac s =
     (case s of
        [] \<Rightarrow> Some ([], s)
      | c # r \<Rightarrow>
          if c = ch CHR ''.'' then
            (if takeWhile is_digit r = [] then None
             else Some (takeWhile is_digit r, dropWhile is_digit r))
          else Some ([], s))"

text \<open>The exponent, if there is one: \<open>e\<close> or \<open>E\<close>, a sign or none, and at least one digit.\<close>

definition parse_exp_digits :: "bool \<Rightarrow> jsstring \<Rightarrow> (int \<times> jsstring) option" where
  "parse_exp_digits neg s =
     (if takeWhile is_digit s = [] then None
      else Some (if neg then - int (nat_of_digits (takeWhile is_digit s))
                 else int (nat_of_digits (takeWhile is_digit s)),
                 dropWhile is_digit s))"

definition parse_exp :: "jsstring \<Rightarrow> (int \<times> jsstring) option" where
  "parse_exp s =
     (case s of
        [] \<Rightarrow> Some (0, s)
      | c # r \<Rightarrow>
          if c = ch CHR ''e'' \<or> c = ch CHR ''E'' then
            (case r of
               [] \<Rightarrow> None
             | d # r' \<Rightarrow>
                 if d = ch CHR ''-'' then parse_exp_digits True r'
                 else if d = ch CHR ''+'' then parse_exp_digits False r'
                 else parse_exp_digits False r)
          else Some (0, s))"

definition parse_unsigned :: "jsstring \<Rightarrow> ((nat \<times> int) \<times> jsstring) option" where
  "parse_unsigned s =
     (case parse_int_part s of
        None \<Rightarrow> None
      | Some (ip, s1) \<Rightarrow>
          (case parse_frac s1 of
             None \<Rightarrow> None
           | Some (fp, s2) \<Rightarrow>
               (case parse_exp s2 of
                  None \<Rightarrow> None
                | Some (ex, s3) \<Rightarrow>
                    Some (normalize (nat_of_digits (ip @ fp)) (ex - int (length fp)), s3))))"

definition parse_number :: "jsstring \<Rightarrow> (jsval \<times> jsstring) option" where
  "parse_number s =
     (case s of
        [] \<Rightarrow> None
      | c # r \<Rightarrow>
          if c = ch CHR ''-''
          then map_option (\<lambda>((n, e), rest). (JNumber (Number True n e), rest)) (parse_unsigned r)
          else map_option (\<lambda>((n, e), rest). (JNumber (Number False n e), rest)) (parse_unsigned s))"

definition parse_literal :: "jsstring \<Rightarrow> (jsval \<times> jsstring) option" where
  "parse_literal s =
     (if take 4 s = str ''null'' then Some (JNull, drop 4 s)
      else if take 4 s = str ''true'' then Some (JBool True, drop 4 s)
      else if take 5 s = str ''false'' then Some (JBool False, drop 5 s)
      else None)"

definition hex_val :: "nat \<Rightarrow> nat option" where
  "hex_val c =
     (if 48 \<le> c \<and> c \<le> 57 then Some (c - 48)
      else if 97 \<le> c \<and> c \<le> 102 then Some (c - 87)
      else if 65 \<le> c \<and> c \<le> 70 then Some (c - 55)
      else None)"

definition hex4 :: "nat \<Rightarrow> nat \<Rightarrow> nat \<Rightarrow> nat \<Rightarrow> nat option" where
  "hex4 a b c d =
     (case (hex_val a, hex_val b, hex_val c, hex_val d) of
        (Some x, Some y, Some z, Some w) \<Rightarrow> Some (((x * 16 + y) * 16 + z) * 16 + w)
      | _ \<Rightarrow> None)"

definition unescape :: "nat \<Rightarrow> nat option" where
  "unescape e =
     (if e = ch CHR 0x22 then Some 0x22
      else if e = ch CHR 0x5C then Some 0x5C
      else if e = ch CHR ''/'' then Some (ch CHR ''/'')
      else if e = ch CHR ''b'' then Some 0x08
      else if e = ch CHR ''f'' then Some 0x0C
      else if e = ch CHR ''n'' then Some 0x0A
      else if e = ch CHR ''r'' then Some 0x0D
      else if e = ch CHR ''t'' then Some 0x09
      else None)"

definition cons_char ::
  "nat \<Rightarrow> (jsstring \<times> jsstring) option \<Rightarrow> (jsstring \<times> jsstring) option" where
  "cons_char c r = map_option (\<lambda>(s, rest). (c # s, rest)) r"

text \<open>The characters of a string literal after its opening quote, up to the closing one.\<close>

fun parse_chars :: "jsstring \<Rightarrow> (jsstring \<times> jsstring) option" where
  "parse_chars [] = None"
| "parse_chars (c # cs) =
     (if c = ch CHR 0x22 then Some ([], cs)
      else if c = ch CHR 0x5C then
        (case cs of
           [] \<Rightarrow> None
         | e # r \<Rightarrow>
             if e = ch CHR ''u'' then
               (case r of
                  h1 # h2 # h3 # h4 # r' \<Rightarrow>
                    (case hex4 h1 h2 h3 h4 of
                       None \<Rightarrow> None
                     | Some n \<Rightarrow> cons_char n (parse_chars r'))
                | _ \<Rightarrow> None)
             else
               (case unescape e of
                  None \<Rightarrow> None
                | Some u \<Rightarrow> cons_char u (parse_chars r)))
      else if c < 0x20 then None
      else cons_char c (parse_chars cs))"

text \<open>
  Properties are created in the order of the text; a key that occurs again overwrites the
  value of the property it names and keeps its place. (Keys that are array indices, which
  an object enumerates first, are left where the text has them.)
\<close>

fun obj_put :: "jsstring \<Rightarrow> jsval \<Rightarrow> (jsstring \<times> jsval) list \<Rightarrow> (jsstring \<times> jsval) list" where
  "obj_put k v [] = [(k, v)]"
| "obj_put k v ((k', v') # ps) = (if k = k' then (k, v) # ps else (k', v') # obj_put k v ps)"

definition make_object :: "(jsstring \<times> jsval) list \<Rightarrow> (jsstring \<times> jsval) list" where
  "make_object ms = foldl (\<lambda>acc (k, v). obj_put k v acc) [] ms"

fun parse_value :: "nat \<Rightarrow> jsstring \<Rightarrow> (jsval \<times> jsstring) option"
  and parse_elements :: "nat \<Rightarrow> jsstring \<Rightarrow> (jsval list \<times> jsstring) option"
  and parse_members :: "nat \<Rightarrow> jsstring \<Rightarrow> ((jsstring \<times> jsval) list \<times> jsstring) option"
where
  "parse_value 0 s = None"
| "parse_value (Suc f) s =
     (case skip_ws s of
        [] \<Rightarrow> None
      | c # cs \<Rightarrow>
          if c = ch CHR ''{'' then
            (case skip_ws cs of
               [] \<Rightarrow> None
             | d # r \<Rightarrow>
                 if d = ch CHR ''}'' then Some (JObject [], r)
                 else map_option (\<lambda>(ms, r'). (JObject (make_object ms), r'))
                        (parse_members f (d # r)))
          else if c = ch CHR ''['' then
            (case skip_ws cs of
               [] \<Rightarrow> None
             | d # r \<Rightarrow>
                 if d = ch CHR '']'' then Some (JArray [], r)
                 else map_option (\<lambda>(vs, r'). (JArray vs, r')) (parse_elements f (d # r)))
          else if c = ch CHR 0x22 then
            map_option (\<lambda>(s', r). (JString s', r)) (parse_chars cs)
          else if c = ch CHR ''-'' \<or> is_digit c then parse_number (c # cs)
          else parse_literal (c # cs))"
| "parse_elements 0 s = None"
| "parse_elements (Suc f) s =
     (case parse_value f s of
        None \<Rightarrow> None
      | Some (v, r) \<Rightarrow>
          (case skip_ws r of
             [] \<Rightarrow> None
           | c # r' \<Rightarrow>
               if c = ch CHR '','' then
                 (case parse_elements f r' of
                    None \<Rightarrow> None
                  | Some (vs, r'') \<Rightarrow> Some (v # vs, r''))
               else if c = ch CHR '']'' then Some ([v], r')
               else None))"
| "parse_members 0 s = None"
| "parse_members (Suc f) s =
     (case skip_ws s of
        [] \<Rightarrow> None
      | q # cs \<Rightarrow>
          if q \<noteq> ch CHR 0x22 then None
          else
            (case parse_chars cs of
               None \<Rightarrow> None
             | Some (k, r) \<Rightarrow>
                 (case skip_ws r of
                    [] \<Rightarrow> None
                  | col # r1 \<Rightarrow>
                      if col \<noteq> ch CHR '':'' then None
                      else
                        (case parse_value f r1 of
                           None \<Rightarrow> None
                         | Some (v, r2) \<Rightarrow>
                             (case skip_ws r2 of
                                [] \<Rightarrow> None
                              | c # r3 \<Rightarrow>
                                  if c = ch CHR '','' then
                                    (case parse_members f r3 of
                                       None \<Rightarrow> None
                                     | Some (ms, r4) \<Rightarrow> Some ((k, v) # ms, r4))
                                  else if c = ch CHR ''}'' then Some ([(k, v)], r3)
                                  else None)))))"

definition JSON_parse :: "jsstring \<Rightarrow> error + jsval" where
  "JSON_parse text =
     (case parse_value (Suc (length text)) text of
        None \<Rightarrow> Inl SyntaxError
      | Some (v, rest) \<Rightarrow> if skip_ws rest = [] then Inr v else Inl SyntaxError)"

text \<open>
  Plain JSON data: \<open>null\<close>, booleans, finite numbers other than the negative zero,
  strings, arrays of plain data, and objects of plain data. (The keys of an object are
  distinct and a number is held in canonical form, as always.)
\<close>

fun json_data :: "jsval \<Rightarrow> bool"
  and json_data_list :: "jsval list \<Rightarrow> bool"
  and json_data_props :: "(jsstring \<times> jsval) list \<Rightarrow> bool"
where
  "json_data JNull = True"
| "json_data (JBool b) = True"
| "json_data (JNumber x) = (canonical x \<and> x \<noteq> Number True 0 0)"
| "json_data (JString s) = True"
| "json_data (JArray vs) = json_data_list vs"
| "json_data (JObject ps) = (distinct (map fst ps) \<and> json_data_props ps)"
| "json_data JUndefined = False"
| "json_data JNaN = False"
| "json_data JInfinity = False"
| "json_data JNegInfinity = False"
| "json_data (JBigInt n) = False"
| "json_data JSymbol = False"
| "json_data JFunction = False"
| "json_data JCircular = False"
| "json_data_list [] = True"
| "json_data_list (v # vs) = (json_data v \<and> json_data_list vs)"
| "json_data_props [] = True"
| "json_data_props ((k, v) # ps) = (json_data v \<and> json_data_props ps)"

section \<open>The mock localStorage\<close>

text \<open>
  \<open>storage\<close> is the \<open>Map\<close> of the module-level \<open>localStorage\<close> object. Its declared value
  type is \<open>string\<close>, but \<open>Map.set\<close> stores whatever it is handed, so the model keeps
  runtime values; \<open>Map.get\<close> of an absent key is \<open>undefined\<close>.
\<close>

record localStorage =
  storage :: "jsstring \<rightharpoonup> jsval"

definition fresh :: localStorage where
  "fresh = \<lparr>storage = Map.empty\<rparr>"

definition Map_get :: "(jsstring \<rightharpoonup> jsval) \<Rightarrow> jsstring \<Rightarrow> jsval" where
  "Map_get m key = (case m key of None \<Rightarrow> JUndefined | Some v \<Rightarrow> v)"

definition setItem :: "jsstring \<Rightarrow> jsval \<Rightarrow> localStorage \<Rightarrow> localStorage" where
  "setItem key v ls = ls\<lparr>storage := (storage ls)(key \<mapsto> v)\<rparr>"

definition getItem :: "jsstring \<Rightarrow> localStorage \<Rightarrow> jsval" where
  "getItem key ls = js_or (Map_get (storage ls) key) JNull"

definition removeItem :: "jsstring \<Rightarrow> localStorage \<Rightarrow> localStorage" where
  "removeItem key ls = ls\<lparr>storage := (storage ls)(key := None)\<rparr>"

definition clear :: "localStorage \<Rightarrow> localStorage" where
  "clear ls = ls\<lparr>storage := Map.empty\<rparr>"

section \<open>UserRepositoryService\<close>

definition LSuserDetails :: jsstring where
  "LSuserDetails = str ''LSuserDetails''"

definition getAllUsers :: "localStorage \<Rightarrow> jsval \<times> localStorage" where
  "getAllUsers ls = (getItem LSuserDetails ls, ls)"

text \<open>
  The argument \<open>JSON.stringify(userDetails)\<close> is evaluated before \<open>setItem\<close> is called, so
  a throw leaves the store as it was and control passes to the \<open>catch\<close>.
\<close>

definition saveUser :: "jsval \<Rightarrow> localStorage \<Rightarrow> bool \<times> localStorage" where
  "saveUser userDetails ls =
     (case JSON_stringify userDetails of
        Inl ex \<Rightarrow> (False, ls)
      | Inr text \<Rightarrow> (True, setItem LSuserDetails text ls))"

section \<open>Interfaces, BussinessService and UserController\<close>

text \<open>
  An interface is the record of its methods, each a function on the store; a class that
  holds an injected dependency is the record of that field, and its constructor fills it.
\<close>

record IUserRepositoryService =
  repo_getAllUsers :: "localStorage \<Rightarrow> jsval \<times> localStorage"
  repo_saveUser :: "jsval \<Rightarrow> localStorage \<Rightarrow> bool \<times> localStorage"

record IUserBussinessService =
  svc_getAllUsers :: "localStorage \<Rightarrow> jsval \<times> localStorage"
  svc_saveUser :: "jsval \<Rightarrow> localStorage \<Rightarrow> bool \<times> localStorage"

definition UserRepositoryService :: IUserRepositoryService where
  "UserRepositoryService = \<lparr>repo_getAllUsers = getAllUsers, repo_saveUser = saveUser\<rparr>"

record BussinessService_fields =
  userRepository :: IUserRepositoryService

definition BussinessService_new :: "IUserRepositoryService \<Rightarrow> BussinessService_fields" where
  "BussinessService_new repo = \<lparr>userRepository = repo\<rparr>"

definition BussinessService_getAllUsers ::
  "BussinessService_fields \<Rightarrow> localStorage \<Rightarrow> jsval \<times> localStorage" where
  "BussinessService_getAllUsers this = repo_getAllUsers (userRepository this)"

definition BussinessService_saveUser ::
  "BussinessService_fields \<Rightarrow> jsval \<Rightarrow> localStorage \<Rightarrow> bool \<times> localStorage" where
  "BussinessService_saveUser this userDetails = repo_saveUser (userRepository this) userDetails"

definition BussinessService :: "IUserRepositoryService \<Rightarrow> IUserBussinessService" where
  "BussinessService repo =
     (let this = BussinessService_new repo
      in \<lparr>svc_getAllUsers = BussinessService_getAllUsers this,
          svc_saveUser = BussinessService_saveUser this\<rparr>)"

record UserController =
  userBusinessService :: IUserBussinessService

definition UserController_new :: "IUserBussinessService \<Rightarrow> UserController" where
  "UserController_new svc = \<lparr>userBusinessService = svc\<rparr>"

definition saveUserData :: "UserController \<Rightarrow> jsval \<Rightarrow> localStorage \<Rightarrow> bool \<times> localStorage" where
  "saveUserData this userDetails = svc_saveUser (userBusinessService this) userDetails"

definition getAllUserData :: "UserController \<Rightarrow> localStorage \<Rightarrow> jsval \<times> localStorage" where
  "getAllUserData this = svc_getAllUsers (userBusinessService this)"

text \<open>The wiring of the main script.\<close>

definition userRepositoryService :: IUserRepositoryService where
  "userRepositoryService = UserRepositoryService"

definition businessService :: IUserBussinessService where
  "businessService = BussinessService userRepositoryService"

definition userController :: UserController where
  "userController = UserController_new businessService"

section \<open>Call sequences\<close>

text \<open>
  The store is private to the repository module: the only operations a caller can apply to
  it are \<open>saveUser\<close> and \<open>getAllUsers\<close>, and the store starts out empty.
\<close>

datatype call = SaveUser jsval | GetAllUsers

fun exec :: "call \<Rightarrow> localStorage \<Rightarrow> localStorage" where
  "exec (SaveUser userDetails) ls = snd (saveUser userDetails ls)"
| "exec GetAllUsers ls = snd (getAllUsers ls)"

definition run :: "call list \<Rightarrow> localStorage \<Rightarrow> localStorage" where
  "run cs ls = fold exec cs ls"

text \<open>An input is serializable when \<open>JSON.stringify\<close> does not throw on it.\<close>

definition serializable :: "jsval \<Rightarrow> bool" where
  "serializable v = (case JSON_stringify v of Inl e \<Rightarrow> False | Inr t \<Rightarrow> True)"

text \<open>What the store may hold under the fixed key: \<open>undefined\<close> or a non-empty text.\<close>

definition stored_ok :: "localStorage \<Rightarrow> bool" where
  "stored_ok ls =
     (case storage ls LSuserDetails of
        None \<Rightarrow> True
      | Some v \<Rightarrow> (case v of JUndefined \<Rightarrow> True | JString s \<Rightarrow> s \<noteq> [] | _ \<Rightarrow> False))"

text \<open>The records of the main script and of the scenario.\<close>

definition userData :: jsval where
  "userData =
     JObject [(str ''id'', JNumber (number_of_int 1)), (str ''name'', JString (str ''John Doe'')),
              (str ''email'', JString (str ''john@example.com''))]"

definition userData2 :: jsval where
  "userData2 =
     JObject [(str ''id'', JNumber (number_of_int 2)), (str ''name'', JString (str ''Jane''))]"

section \<open>Auxiliary notions for the round trip\<close>

text \<open>
  What may follow a value inside a JSON text that \<open>JSON.stringify\<close> wrote, and how the
  text of a value may begin.
\<close>

definition delim :: "jsstring \<Rightarrow> bool" where
  "delim rest =
     (case rest of
        [] \<Rightarrow> True
      | c # r \<Rightarrow> c = ch CHR '','' \<or> c = ch CHR '']'' \<or> c = ch CHR ''}'')"

definition good_start :: "jsstring \<Rightarrow> bool" where
  "good_start t =
     (case t of
        [] \<Rightarrow> False
      | c # r \<Rightarrow> \<not> is_ws c \<and> c \<noteq> ch CHR '']'' \<and> c \<noteq> ch CHR ''}'')"

text \<open>
  A record with a field that is not a number JSON can write, and the two stores of the
  scenario: after the first save through the controller, and after the read and the
  second save.
\<close>

definition scoreRecord :: jsval where
  "scoreRecord = JObject [(str ''id'', JNumber (number_of_int 1)), (str ''score'', JNaN)]"

definition scenario_store1 :: localStorage where
  "scenario_store1 = snd (saveUserData userController userData fresh)"

definition scenario_store2 :: localStorage where
  "scenario_store2 =
     snd (saveUserData userController userData2
            (snd (getAllUserData userController scenario_store1)))"

text \<open>
  What \<open>JSON.parse\<close> can return: as plain JSON data, but with the negative zero, which the
  text \<open>-0\<close> denotes. \<open>unsign\<close> turns every zero of a value into the positive one, which is
  what writing a value and reading it back does to it.
\<close>

fun json_shape :: "jsval \<Rightarrow> bool"
  and json_shape_list :: "jsval list \<Rightarrow> bool"
  and json_shape_props :: "(jsstring \<times> jsval) list \<Rightarrow> bool"
where
  "json_shape JNull = True"
| "json_shape (JBool b) = True"
| "json_shape (JNumber x) = canonical x"
| "json_shape (JString s) = True"
| "json_shape (JArray vs) = json_shape_list vs"
| "json_shape (JObject ps) = (distinct (map fst ps) \<and> json_shape_props ps)"
| "json_shape JUndefined = False"
| "json_shape JNaN = False"
| "json_shape JInfinity = False"
| "json_shape JNegInfinity = False"
| "json_shape (JBigInt n) = False"
| "json_shape JSymbol = False"
| "json_shape JFunction = False"
| "json_shape JCircular = False"
| "json_shape_list [] = True"
| "json_shape_list (v # vs) = (json_shape v \<and> json_shape_list vs)"
| "json_shape_props [] = True"
| "json_shape_props ((k, v) # ps) = (json_shape v \<and> json_shape_props ps)"

definition unsign_number :: "number \<Rightarrow> number" where
  "unsign_number x = (if coefficient x = 0 then Number False 0 0 else x)"

fun unsign :: "jsval \<Rightarrow> jsval"
  and unsign_list :: "jsval list \<Rightarrow> jsval list"
  and unsign_props :: "(jsstring \<times> jsval) list \<Rightarrow> (jsstring \<times> jsval) list"
where
  "unsign (JNumber x) = JNumber (unsign_number x)"
| "unsign (JArray vs) = JArray (unsign_list vs)"
| "unsign (JObject ps) = JObject (unsign_props ps)"
| "unsign v = v"
| "unsign_list [] = []"
| "unsign_list (v # vs) = unsign v # unsign_list vs"
| "unsign_props [] = []"
| "unsign_props ((k, v) # ps) = (k, unsign v) # unsign_props ps"

text \<open>A block of digits is read up to the first character that is not a digit.\<close>

definition stops :: "jsstring \<Rightarrow> bool" where
  "stops rest = (case rest of [] \<Rightarrow> True | c # r \<Rightarrow> \<not> is_digit c)"

text \<open>
  A record of plain JSON data with a fraction, a number that prints with an exponent, a
  string beyond Latin-1 and an array.
\<close>

definition plainRecord :: jsval where
  "plainRecord =
     JObject [(str ''id'', JNumber (number_of_int 1)),
              (str ''score'', JNumber (Number False 1 (- 1))),
              (str ''big'', JNumber (Number False 15 20)),
              (str ''name'', JString [0x4E2D, 0x6587]),
              (str ''tags'', JArray [JBool True, JNull])]"

section \<open>Basic facts\<close>

lemma digits_nonempty: "digits n \<noteq> []"
  by (subst digits.simps) simp

lemma unsigned_to_string_nonempty: "unsigned_to_string s e \<noteq> []"
  by (simp add: unsigned_to_string_def Let_def digits_nonempty)

lemma number_to_string_nonempty: "number_to_string x \<noteq> []"
  by (simp add: number_to_string_def unsigned_to_string_nonempty str_def)

lemma SerializeJSONProperty_nonempty:
  "SerializeJSONProperty v = Inr (Some s) \<Longrightarrow> s \<noteq> []"
  by (cases v)
     (auto simp: number_to_string_nonempty QuoteJSONString_def str_def
           split: sum.splits if_splits)

lemma JSON_stringify_cases:
  "JSON_stringify v = Inr t \<Longrightarrow> t = JUndefined \<or> (\<exists>s. t = JString s \<and> s \<noteq> [])"
proof (cases "SerializeJSONProperty v")
  case (Inl e)
  assume "JSON_stringify v = Inr t"
  with Inl show ?thesis by (simp add: JSON_stringify_def)
next
  case (Inr r)
  assume st: "JSON_stringify v = Inr t"
  show ?thesis
  proof (cases r)
    case None
    with Inr st show ?thesis by (simp add: JSON_stringify_def)
  next
    case (Some s)
    with Inr have "s \<noteq> []" by (simp add: SerializeJSONProperty_nonempty)
    with Inr Some st show ?thesis by (auto simp: JSON_stringify_def)
  qed
qed

lemma JSON_stringify_text_truthy:
  "JSON_stringify v = Inr (JString s) \<Longrightarrow> truthy (JString s)"
  by (drule JSON_stringify_cases) simp

lemma getItem_setItem: "getItem key (setItem key v ls) = js_or v JNull"
  by (simp add: getItem_def setItem_def Map_get_def)

lemma saveUser_Inr:
  "JSON_stringify R = Inr t \<Longrightarrow> saveUser R ls = (True, setItem LSuserDetails t ls)"
  by (simp add: saveUser_def)

lemma saveUser_Inl: "JSON_stringify R = Inl e \<Longrightarrow> saveUser R ls = (False, ls)"
  by (simp add: saveUser_def)

lemma saveUser_True_iff: "fst (saveUser R ls) \<longleftrightarrow> serializable R"
  by (simp add: saveUser_def serializable_def split: sum.splits)

lemma storage_saveUser:
  "storage (snd (saveUser R ls)) =
     (case JSON_stringify R of
        Inl e \<Rightarrow> storage ls
      | Inr t \<Rightarrow> (storage ls)(LSuserDetails \<mapsto> t))"
  by (simp add: saveUser_def setItem_def split: sum.splits)

lemma exec_dom:
  "dom (storage ls) \<subseteq> {LSuserDetails} \<Longrightarrow> dom (storage (exec c ls)) \<subseteq> {LSuserDetails}"
  by (cases c) (auto simp: storage_saveUser getAllUsers_def split: sum.splits if_splits)

lemma run_dom:
  "dom (storage ls) \<subseteq> {LSuserDetails} \<Longrightarrow> dom (storage (run cs ls)) \<subseteq> {LSuserDetails}"
  unfolding run_def
  by (induction cs arbitrary: ls) (simp_all add: exec_dom)

lemma exec_stored_ok: "stored_ok ls \<Longrightarrow> stored_ok (exec c ls)"
proof (cases c)
  case (SaveUser R)
  assume ok: "stored_ok ls"
  show ?thesis
  proof (cases "JSON_stringify R")
    case (Inl e)
    with ok SaveUser show ?thesis by (simp add: saveUser_Inl)
  next
    case (Inr t)
    from JSON_stringify_cases [OF Inr] SaveUser Inr show ?thesis
      by (auto simp: saveUser_Inr stored_ok_def setItem_def)
  qed
next
  case GetAllUsers
  assume "stored_ok ls"
  with GetAllUsers show ?thesis by (simp add: getAllUsers_def)
qed

lemma run_stored_ok: "stored_ok ls \<Longrightarrow> stored_ok (run cs ls)"
  unfolding run_def
  by (induction cs arbitrary: ls) (simp_all add: exec_stored_ok)

lemma fresh_dom: "dom (storage fresh) \<subseteq> {LSuserDetails}"
  by (simp add: fresh_def)

lemma fresh_stored_ok: "stored_ok fresh"
  by (simp add: stored_ok_def fresh_def)

lemma single_key_map:
  "dom m \<subseteq> {k} \<Longrightarrow> m(k \<mapsto> v) = [k \<mapsto> v]"
  by (rule ext) (auto simp: dom_def)

lemmas eval_simps =
  JSON_stringify_def QuoteJSONString_def quote_char_def unicode_escape_def hex_char_def
  is_lead_def is_trail_def number_to_string_def unsigned_to_string_def Let_def digits.simps
  digit_char_def number_of_int_def normalize.simps str_def saveUser_def getAllUsers_def
  getItem_def setItem_def Map_get_def js_or_def fresh_def userData_def userData2_def

lemmas layer_defs =
  saveUserData_def getAllUserData_def userController_def UserController_new_def
  businessService_def BussinessService_def BussinessService_new_def
  BussinessService_saveUser_def BussinessService_getAllUsers_def
  userRepositoryService_def UserRepositoryService_def

lemmas data_simps = str_def canonical_def number_of_int_def normalize.simps

section \<open>Parsing what JSON.stringify wrote\<close>

lemma is_digit_digit_char: "d < 10 \<Longrightarrow> is_digit (digit_char d)"
  by (simp add: is_digit_def digit_char_def)

lemma digit_val_digit_char: "digit_val (digit_char d) = d"
  by (simp add: digit_val_def digit_char_def)

lemma digits_all_digit: "c \<in> set (digits n) \<Longrightarrow> is_digit c"
proof (induction n arbitrary: c rule: digits.induct)
  case (1 n)
  show ?case
  proof (cases "n < 10")
    case True
    with "1.prems" show ?thesis
      by (subst (asm) digits.simps) (simp add: is_digit_digit_char)
  next
    case False
    with "1.prems" have "c \<in> set (digits (n div 10)) \<or> c = digit_char (n mod 10)"
      by (subst (asm) digits.simps) auto
    with False "1.IH" show ?thesis
      by (auto simp: is_digit_digit_char)
  qed
qed

lemma nat_of_digits_snoc: "nat_of_digits (ds @ [c]) = 10 * nat_of_digits ds + digit_val c"
  by (simp add: nat_of_digits_def)

lemma nat_of_digits_append:
  "nat_of_digits (a @ b) = nat_of_digits a * 10 ^ length b + nat_of_digits b"
proof (induction b rule: rev_induct)
  case Nil
  show ?case by (simp add: nat_of_digits_def)
next
  case (snoc c b)
  have "nat_of_digits (a @ b @ [c]) = 10 * nat_of_digits (a @ b) + digit_val c"
    using nat_of_digits_snoc [of "a @ b" c] by simp
  with snoc show ?case
    by (simp add: nat_of_digits_snoc algebra_simps)
qed

lemma nat_of_digits_digits: "nat_of_digits (digits n) = n"
proof (induction n rule: digits.induct)
  case (1 n)
  show ?case
  proof (cases "n < 10")
    case True
    then show ?thesis
      by (subst digits.simps) (simp add: nat_of_digits_def digit_val_digit_char)
  next
    case False
    with "1.IH" have "nat_of_digits (digits (n div 10)) = n div 10" by simp
    with False show ?thesis
      by (subst digits.simps) (simp add: nat_of_digits_snoc digit_val_digit_char)
  qed
qed

lemma nat_of_digits_zeros: "nat_of_digits (replicate j 48) = 0"
  by (induction j) (simp_all add: nat_of_digits_def digit_val_def)

lemma hd_digits_nonzero: "s \<noteq> 0 \<Longrightarrow> hd (digits s) \<noteq> ch CHR ''0''"
proof (induction s rule: digits.induct)
  case (1 n)
  show ?case
  proof (cases "n < 10")
    case True
    with "1.prems" show ?thesis
      by (subst digits.simps) (simp add: digit_char_def)
  next
    case False
    then have "n div 10 \<noteq> 0" by simp
    with False "1.IH" have "hd (digits (n div 10)) \<noteq> ch CHR ''0''" by simp
    with False digits_nonempty [of "n div 10"] show ?thesis
      by (subst digits.simps) simp
  qed
qed

lemma length_digits_small: "length (digits s) = 1 \<Longrightarrow> digits s = [hd (digits s)]"
  by (cases "digits s") simp_all

lemma stops_takeWhile: "stops rest \<Longrightarrow> takeWhile is_digit rest = []"
  by (cases rest) (simp_all add: stops_def)

lemma stops_dropWhile: "stops rest \<Longrightarrow> dropWhile is_digit rest = rest"
  by (cases rest) (simp_all add: stops_def)

lemma takeWhile_digit_block:
  "\<forall>c \<in> set ds. is_digit c \<Longrightarrow> stops rest \<Longrightarrow> takeWhile is_digit (ds @ rest) = ds"
  by (simp add: stops_takeWhile)

lemma dropWhile_digit_block:
  "\<forall>c \<in> set ds. is_digit c \<Longrightarrow> stops rest \<Longrightarrow> dropWhile is_digit (ds @ rest) = rest"
  by (simp add: stops_dropWhile)

lemma delim_stops: "delim rest \<Longrightarrow> stops rest"
  by (cases rest) (auto simp: delim_def stops_def is_digit_def)

lemma stops_punct:
  "stops (ch CHR ''.'' # r)" "stops (ch CHR ''e'' # r)"
  by (simp_all add: stops_def is_digit_def)

lemma parse_int_part_block:
  assumes "\<forall>c \<in> set ds. is_digit c" and "ds \<noteq> []"
    and "hd ds = ch CHR ''0'' \<longrightarrow> tl ds = []" and "stops rest"
  shows "parse_int_part (ds @ rest) = Some (ds, rest)"
  using assms
  by (simp add: parse_int_part_def Let_def stops_takeWhile stops_dropWhile)

lemma parse_frac_block:
  assumes "\<forall>c \<in> set fs. is_digit c" and "fs \<noteq> []" and "stops rest"
  shows "parse_frac (ch CHR ''.'' # fs @ rest) = Some (fs, rest)"
  using assms
  by (simp add: parse_frac_def stops_takeWhile stops_dropWhile)

lemma parse_frac_none:
  "delim rest \<Longrightarrow> parse_frac rest = Some ([], rest)"
  "parse_frac (ch CHR ''e'' # r) = Some ([], ch CHR ''e'' # r)"
  by (cases rest) (auto simp: parse_frac_def delim_def)

lemma parse_exp_none: "delim rest \<Longrightarrow> parse_exp rest = Some (0, rest)"
  by (cases rest) (auto simp: parse_exp_def delim_def)

lemma parse_exp_digits_block:
  assumes "stops rest"
  shows "parse_exp_digits neg (digits c @ rest)
         = Some (if neg then - int c else int c, rest)"
  using assms digits_nonempty [of c]
  by (simp add: parse_exp_digits_def stops_takeWhile stops_dropWhile
                digits_all_digit nat_of_digits_digits)

lemma parse_exp_block:
  assumes "stops rest"
  shows "parse_exp (ch CHR ''e'' # (if 0 < c then ch CHR ''+'' else ch CHR ''-'')
                    # digits (nat \<bar>c\<bar>) @ rest) = Some (c, rest)"
proof (cases "0 < c")
  case True
  with parse_exp_digits_block [OF assms, of False "nat c"] show ?thesis
    by (simp add: parse_exp_def)
next
  case False
  with parse_exp_digits_block [OF assms, of True "nat (- c)"] show ?thesis
    by (simp add: parse_exp_def)
qed

lemma normalize_canonical: "s mod 10 \<noteq> 0 \<Longrightarrow> normalize s e = (s, e)"
  by (subst normalize.simps) auto

lemma normalize_power: "s mod 10 \<noteq> 0 \<Longrightarrow> normalize (s * 10 ^ j) e = (s, e + int j)"
proof (induction j arbitrary: e)
  case 0
  then show ?case by (simp add: normalize_canonical)
next
  case (Suc j)
  from Suc.prems have "s \<noteq> 0" by auto
  then have "normalize (s * 10 ^ Suc j) e = normalize (s * 10 ^ j) (e + 1)"
    by (subst normalize.simps) simp
  with Suc.IH [OF Suc.prems, of "e + 1"] show ?case by simp
qed

lemma parse_unsigned_parts:
  assumes "parse_int_part t = Some (ip, s1)" and "parse_frac s1 = Some (fp, s2)"
    and "parse_exp s2 = Some (ex, rest)"
  shows "parse_unsigned t
         = Some (normalize (nat_of_digits (ip @ fp)) (ex - int (length fp)), rest)"
  using assms by (simp add: parse_unsigned_def)

lemma parse_unsigned_round_trip:
  assumes s: "s mod 10 \<noteq> 0" and d: "delim rest"
  shows "parse_unsigned (unsigned_to_string s e @ rest) = Some ((s, e), rest)"
proof -
  define m where "m = digits s"
  define k where "k = int (length m)"
  define n where "n = e + k"
  from s have s0: "s \<noteq> 0" by auto
  have m_digits: "\<forall>c \<in> set m. is_digit c"
    by (simp add: m_def digits_all_digit)
  have m_ne: "m \<noteq> []"
    by (simp add: m_def digits_nonempty)
  have m_hd: "hd m \<noteq> ch CHR ''0''"
    using hd_digits_nonzero [OF s0] by (simp add: m_def)
  have m_val: "nat_of_digits m = s"
    by (simp add: m_def nat_of_digits_digits)
  have k_pos: "0 < k"
    using m_ne by (simp add: k_def)
  have st: "stops rest"
    by (rule delim_stops [OF d])
  consider (whole) "k \<le> n" "n \<le> 21"
    | (point) "\<not> (k \<le> n \<and> n \<le> 21)" "0 < n" "n \<le> 21"
    | (small) "\<not> (k \<le> n \<and> n \<le> 21)" "\<not> (0 < n \<and> n \<le> 21)" "- 6 < n" "n \<le> 0"
    | (expo) "\<not> (k \<le> n \<and> n \<le> 21)" "\<not> (0 < n \<and> n \<le> 21)" "\<not> (- 6 < n \<and> n \<le> 0)"
    by blast
  then show ?thesis
  proof cases
    case whole
    define j where "j = nat (n - k)"
    have shape: "unsigned_to_string s e = m @ replicate j (ch CHR ''0'')"
      using whole by (simp add: unsigned_to_string_def Let_def m_def k_def n_def j_def)
    have zs: "\<forall>c \<in> set (m @ replicate j (ch CHR ''0'')). is_digit c"
      using m_digits by (auto simp: is_digit_def)
    have hd0: "hd (m @ replicate j (ch CHR ''0'')) \<noteq> ch CHR ''0''"
      using m_ne m_hd by simp
    have a: "parse_int_part ((m @ replicate j (ch CHR ''0'')) @ rest)
             = Some (m @ replicate j (ch CHR ''0''), rest)"
      using zs m_ne hd0 st by (intro parse_int_part_block) simp_all
    have v: "nat_of_digits ((m @ replicate j (ch CHR ''0'')) @ []) = s * 10 ^ j"
      by (simp add: nat_of_digits_append nat_of_digits_zeros m_val)
    have "int j = e"
      using whole by (simp add: j_def n_def)
    with parse_unsigned_parts [OF a parse_frac_none(1) [OF d] parse_exp_none [OF d]] v
         normalize_power [OF s, of j 0] shape
    show ?thesis by simp
  next
    case point
    define i where "i = nat n"
    from point k_pos have lt: "n < k" by linarith
    with point have i: "0 < i" "i < length m" by (simp_all add: i_def k_def)
    have shape: "unsigned_to_string s e = take i m @ ch CHR ''.'' # drop i m"
      using point by (simp add: unsigned_to_string_def Let_def m_def k_def n_def i_def)
    have td: "\<forall>c \<in> set (take i m). is_digit c" "\<forall>c \<in> set (drop i m). is_digit c"
      using m_digits by (auto dest: in_set_takeD in_set_dropD)
    have t_ne: "take i m \<noteq> []" and d_ne: "drop i m \<noteq> []"
      using i m_ne by simp_all
    have t_hd: "hd (take i m) \<noteq> ch CHR ''0''"
      using i m_hd by (simp add: hd_take)
    have a: "parse_int_part (take i m @ ch CHR ''.'' # drop i m @ rest)
             = Some (take i m, ch CHR ''.'' # drop i m @ rest)"
      using td(1) t_ne t_hd stops_punct(1) by (intro parse_int_part_block) simp_all
    have b: "parse_frac (ch CHR ''.'' # drop i m @ rest) = Some (drop i m, rest)"
      using td(2) d_ne st by (rule parse_frac_block)
    have len: "0 - int (length (drop i m)) = e"
      using i by (simp add: i_def n_def k_def)
    with parse_unsigned_parts [OF a b parse_exp_none [OF d]] normalize_canonical [OF s, of e]
         m_val shape
    show ?thesis by simp
  next
    case small
    define j where "j = nat (- n)"
    have shape: "unsigned_to_string s e
                = ch CHR ''0'' # ch CHR ''.'' # replicate j (ch CHR ''0'') @ m"
      using small by (simp add: unsigned_to_string_def Let_def m_def k_def n_def j_def)
    have fs: "\<forall>c \<in> set (replicate j (ch CHR ''0'') @ m). is_digit c"
      using m_digits by (auto simp: is_digit_def)
    have a: "parse_int_part ([ch CHR ''0''] @ ch CHR ''.'' # (replicate j (ch CHR ''0'') @ m) @ rest)
             = Some ([ch CHR ''0''], ch CHR ''.'' # (replicate j (ch CHR ''0'') @ m) @ rest)"
      using stops_punct(1) by (intro parse_int_part_block) (simp_all add: is_digit_def)
    have b: "parse_frac (ch CHR ''.'' # (replicate j (ch CHR ''0'') @ m) @ rest)
             = Some (replicate j (ch CHR ''0'') @ m, rest)"
      using fs m_ne st by (intro parse_frac_block) simp_all
    have v: "nat_of_digits ([ch CHR ''0''] @ replicate j (ch CHR ''0'') @ m) = s"
      using nat_of_digits_append [of "ch CHR ''0'' # replicate j (ch CHR ''0'')" m]
            nat_of_digits_zeros [of "Suc j"] m_val
      by simp
    have len: "0 - int (length (replicate j (ch CHR ''0'') @ m)) = e"
      using small by (simp add: j_def n_def k_def)
    with parse_unsigned_parts [OF a b parse_exp_none [OF d]] normalize_canonical [OF s, of e]
         v shape
    show ?thesis by simp
  next
    case expo
    define c where "c = n - 1"
    define tail where
      "tail = ch CHR ''e'' # (if 0 < c then ch CHR ''+'' else ch CHR ''-'')
              # digits (nat \<bar>c\<bar>) @ rest"
    have ex: "parse_exp tail = Some (c, rest)"
      unfolding tail_def by (rule parse_exp_block [OF st])
    have tail_stops: "stops tail"
      by (simp add: tail_def stops_def is_digit_def)
    have tail_frac: "parse_frac tail = Some ([], tail)"
      by (simp add: tail_def parse_frac_def)
    show ?thesis
    proof (cases "k = 1")
      case True
      have shape: "unsigned_to_string s e @ rest = m @ tail"
        using expo True
        by (auto simp: unsigned_to_string_def Let_def m_def k_def n_def c_def tail_def)
      have a: "parse_int_part (m @ tail) = Some (m, tail)"
        using m_digits m_ne m_hd tail_stops by (intro parse_int_part_block) simp_all
      have "c - 0 = e"
        using True by (simp add: c_def n_def)
      with parse_unsigned_parts [OF a tail_frac ex] normalize_canonical [OF s, of e] m_val shape
      show ?thesis by simp
    next
      case False
      with m_ne have k2: "1 < length m" by (cases m) (simp_all add: k_def)
      then have tl_ne: "tl m \<noteq> []" by (cases m) auto
      have shape: "unsigned_to_string s e @ rest = [hd m] @ ch CHR ''.'' # tl m @ tail"
        using expo False
        by (auto simp: unsigned_to_string_def Let_def m_def k_def n_def c_def tail_def)
      have tl_digits: "\<forall>c \<in> set (tl m). is_digit c"
        using m_digits m_ne by (auto dest: list.set_sel(2))
      have hd_digit: "is_digit (hd m)"
        using m_digits m_ne by simp
      have a: "parse_int_part ([hd m] @ ch CHR ''.'' # tl m @ tail)
               = Some ([hd m], ch CHR ''.'' # tl m @ tail)"
        using hd_digit stops_punct(1) by (intro parse_int_part_block) simp_all
      have b: "parse_frac (ch CHR ''.'' # tl m @ tail) = Some (tl m, tail)"
        using tl_digits tl_ne tail_stops by (rule parse_frac_block)
      have v: "nat_of_digits ([hd m] @ tl m) = s"
        using m_ne m_val by simp
      have "c - int (length (tl m)) = e"
        using m_ne by (cases m) (simp_all add: c_def n_def k_def)
      with parse_unsigned_parts [OF a b ex] normalize_canonical [OF s, of e] v shape
      show ?thesis by simp
    qed
  qed
qed

lemma unsigned_start:
  "\<exists>c cs. unsigned_to_string s e = c # cs \<and> is_digit c"
proof -
  obtain d ds where m: "digits s = d # ds"
    using digits_nonempty [of s] by (cases "digits s") auto
  then have "d \<in> set (digits s)" by simp
  then have d: "is_digit d" by (rule digits_all_digit)
  have z: "is_digit 48" by (simp add: is_digit_def)
  have "hd (unsigned_to_string s e) = d \<or> hd (unsigned_to_string s e) = 48"
    using m by (auto simp: unsigned_to_string_def Let_def hd_append)
  with d z have "is_digit (hd (unsigned_to_string s e))" by auto
  with unsigned_to_string_nonempty [of s e] show ?thesis
    by (cases "unsigned_to_string s e") auto
qed

lemma number_start:
  "\<exists>c cs. number_to_string x = c # cs \<and> (c = ch CHR ''-'' \<or> is_digit c)"
  using unsigned_start [of "coefficient x" "exponent x"]
  by (auto simp: number_to_string_def str_def is_digit_def)

lemma parse_unsigned_zero:
  assumes "delim rest"
  shows "parse_unsigned (48 # rest) = Some ((0, 0), rest)"
proof -
  have a: "parse_int_part ([48] @ rest) = Some ([48], rest)"
    using delim_stops [OF assms] by (intro parse_int_part_block) (simp_all add: is_digit_def)
  have "normalize (nat_of_digits ([48] @ [])) (0 - int (length ([] :: jsstring))) = (0, 0)"
    by (simp add: nat_of_digits_def digit_val_def normalize.simps)
  with parse_unsigned_parts [OF a parse_frac_none(1) [OF assms] parse_exp_none [OF assms]]
  show ?thesis by simp
qed

lemma parse_number_round_trip:
  assumes "canonical x" and d: "delim rest"
  shows "parse_number (number_to_string x @ rest) = Some (JNumber (unsign_number x), rest)"
proof (cases x)
  case (Number neg s e)
  show ?thesis
  proof (cases "s = 0")
    case True
    with parse_unsigned_zero [OF d] Number show ?thesis
      by (simp add: number_to_string_def str_def parse_number_def unsign_number_def)
  next
    case False
    with assms(1) Number have s: "s mod 10 \<noteq> 0"
      by (simp add: canonical_def)
    note rt = parse_unsigned_round_trip [OF s d, of e]
    show ?thesis
    proof (cases neg)
      case True
      with Number False rt show ?thesis
        by (simp add: number_to_string_def parse_number_def unsign_number_def)
    next
      case pos: False
      obtain c cs where cs: "unsigned_to_string s e = c # cs" and c: "is_digit c"
        using unsigned_start [of s e] by blast
      from c have "c \<noteq> ch CHR ''-''" by (auto simp: is_digit_def)
      with Number False pos rt cs show ?thesis
        by (simp add: number_to_string_def parse_number_def unsign_number_def)
    qed
  qed
qed

lemma hex_val_hex_char: "d < 16 \<Longrightarrow> hex_val (hex_char d) = Some d"
  by (simp add: hex_val_def hex_char_def)

lemma hex_compose:
  fixes x y z :: nat
  shows "x = a * 16 + b \<Longrightarrow> y = x * 16 + d \<Longrightarrow> z = y * 16 + f \<Longrightarrow>
         ((a * 16 + b) * 16 + d) * 16 + f = z"
  by simp

lemma hex4_unicode_escape:
  assumes "c < 65536"
  shows "hex4 (hex_char (c div 4096 mod 16)) (hex_char (c div 256 mod 16))
              (hex_char (c div 16 mod 16)) (hex_char (c mod 16)) = Some c"
proof -
  have h1: "c div 4096 mod 16 = c div 4096"
    using assms by simp
  have "c div 256 div 16 = c div 4096" and "c div 16 div 16 = c div 256"
    by (simp_all add: div_mult2_eq [symmetric])
  then have h2: "c div 256 = c div 4096 * 16 + c div 256 mod 16"
    and h3: "c div 16 = c div 256 * 16 + c div 16 mod 16"
    using div_mult_mod_eq [of "c div 256" 16] div_mult_mod_eq [of "c div 16" 16]
    by simp_all
  have h4: "c = c div 16 * 16 + c mod 16"
    by simp
  have "((c div 4096 * 16 + c div 256 mod 16) * 16 + c div 16 mod 16) * 16 + c mod 16 = c"
    by (rule hex_compose [OF h2 h3 h4])
  then have "((c div 4096 mod 16 * 16 + c div 256 mod 16) * 16 + c div 16 mod 16) * 16
             + c mod 16 = c"
    by (simp only: h1)
  then show ?thesis
    by (simp only: hex4_def hex_val_hex_char mod_less_divisor zero_less_numeral
                   prod.case option.case)
qed

lemma parse_chars_unicode_escape:
  assumes "c < 65536"
  shows "parse_chars (unicode_escape c @ t) = cons_char c (parse_chars t)"
  using hex4_unicode_escape [OF assms] by (simp add: unicode_escape_def)

lemma parse_chars_plain:
  assumes "c \<noteq> 0x22" and "c \<noteq> 0x5C" and "\<not> c < 0x20"
  shows "parse_chars (c # t) = cons_char c (parse_chars t)"
  using assms by simp

lemma parse_chars_quote_char:
  "parse_chars (quote_char c @ t) = cons_char c (parse_chars t)"
proof -
  consider (bs) "c = 0x08" | (tab) "c = 0x09" | (lf) "c = 0x0A"
    | (ff) "c = 0x0C" | (cr) "c = 0x0D" | (quote) "c = 0x22"
    | (backslash) "c = 0x5C"
    | (escaped) "c \<noteq> 0x08" "c \<noteq> 0x09" "c \<noteq> 0x0A" "c \<noteq> 0x0C"
        "c \<noteq> 0x0D" "c \<noteq> 0x22" "c \<noteq> 0x5C" "c < 0x20 \<or> is_lead c \<or> is_trail c"
    | (plain) "c \<noteq> 0x08" "c \<noteq> 0x09" "c \<noteq> 0x0A" "c \<noteq> 0x0C"
        "c \<noteq> 0x0D" "c \<noteq> 0x22" "c \<noteq> 0x5C" "\<not> (c < 0x20 \<or> is_lead c \<or> is_trail c)"
    by blast
  then show ?thesis
  proof cases
    case bs then show ?thesis by (simp add: quote_char_def unescape_def)
  next
    case tab then show ?thesis by (simp add: quote_char_def unescape_def)
  next
    case lf then show ?thesis by (simp add: quote_char_def unescape_def)
  next
    case ff then show ?thesis by (simp add: quote_char_def unescape_def)
  next
    case cr then show ?thesis by (simp add: quote_char_def unescape_def)
  next
    case quote then show ?thesis by (simp add: quote_char_def unescape_def)
  next
    case backslash then show ?thesis by (simp add: quote_char_def unescape_def)
  next
    case escaped
    then have "c < 65536" by (auto simp: is_lead_def is_trail_def)
    from parse_chars_unicode_escape [OF this] escaped show ?thesis
      by (simp add: quote_char_def)
  next
    case plain
    then have "quote_char c = [c]" by (simp add: quote_char_def)
    with plain parse_chars_plain [of c t] show ?thesis by simp
  qed
qed

lemma parse_chars_surrogate:
  assumes "is_lead c \<or> is_trail c"
  shows "parse_chars (c # t) = cons_char c (parse_chars t)"
  using assms by (intro parse_chars_plain) (auto simp: is_lead_def is_trail_def)

lemma parse_chars_round_trip:
  "parse_chars (quote_chars s @ 0x22 # rest) = Some (s, rest)"
proof (induction s rule: quote_chars.induct)
  case 1
  show ?case by simp
next
  case (2 c)
  have "parse_chars (quote_char c @ 0x22 # rest) = cons_char c (parse_chars (0x22 # rest))"
    by (rule parse_chars_quote_char)
  then show ?case by (simp add: cons_char_def)
next
  case (3 c d cs)
  show ?case
  proof (cases "is_lead c \<and> is_trail d")
    case True
    then have q: "quote_chars (c # d # cs) = c # d # quote_chars cs" by simp
    from True "3.IH"(1)
    have ih: "parse_chars (quote_chars cs @ 0x22 # rest) = Some (cs, rest)" by simp
    have "parse_chars (c # d # quote_chars cs @ 0x22 # rest)
          = cons_char c (parse_chars (d # quote_chars cs @ 0x22 # rest))"
      using True by (intro parse_chars_surrogate) simp
    also have "parse_chars (d # quote_chars cs @ 0x22 # rest)
          = cons_char d (parse_chars (quote_chars cs @ 0x22 # rest))"
      using True by (intro parse_chars_surrogate) simp
    finally show ?thesis
      by (simp only: q ih cons_char_def append_Cons option.map prod.case)
  next
    case False
    then have q: "quote_chars (c # d # cs) = quote_char c @ quote_chars (d # cs)" by auto
    from False "3.IH"(2)
    have ih: "parse_chars (quote_chars (d # cs) @ 0x22 # rest) = Some (d # cs, rest)" by simp
    have "parse_chars (quote_char c @ quote_chars (d # cs) @ 0x22 # rest)
          = cons_char c (parse_chars (quote_chars (d # cs) @ 0x22 # rest))"
      by (rule parse_chars_quote_char)
    then show ?thesis
      by (simp only: q ih cons_char_def append_assoc option.map prod.case)
  qed
qed

lemma obj_put_fresh_key: "k \<notin> fst ` set acc \<Longrightarrow> obj_put k v acc = acc @ [(k, v)]"
  by (induction acc) auto

lemma make_object_foldl:
  "distinct (map fst (acc @ ms)) \<Longrightarrow>
     foldl (\<lambda>acc (k, v). obj_put k v acc) acc ms = acc @ ms"
proof (induction ms arbitrary: acc)
  case Nil
  then show ?case by simp
next
  case (Cons m ms)
  obtain k v where m: "m = (k, v)" by (cases m)
  from Cons.prems m have "k \<notin> fst ` set acc" by auto
  then have put: "obj_put k v acc = acc @ [(k, v)]" by (rule obj_put_fresh_key)
  from Cons.prems m have "distinct (map fst ((acc @ [(k, v)]) @ ms))" by simp
  from Cons.IH [OF this] put m show ?case by simp
qed

lemma make_object_distinct: "distinct (map fst ms) \<Longrightarrow> make_object ms = ms"
  using make_object_foldl [of "[]" ms] by (simp add: make_object_def)

lemma good_start_skip_ws: "good_start t \<Longrightarrow> skip_ws (t @ rest) = t @ rest"
  by (cases t) (auto simp: good_start_def skip_ws_def)

lemma good_start_append: "good_start t \<Longrightarrow> good_start (t @ u)"
  by (cases t) (auto simp: good_start_def)

lemma good_start_number: "good_start (number_to_string x)"
proof -
  obtain c cs where cs: "number_to_string x = c # cs" and c: "c = ch CHR ''-'' \<or> is_digit c"
    using number_start [of x] by blast
  from c have "\<not> is_ws c \<and> c \<noteq> ch CHR '']'' \<and> c \<noteq> ch CHR ''}''"
    by (auto simp: is_digit_def is_ws_def)
  with cs show ?thesis by (simp add: good_start_def)
qed

lemma good_start_quote: "good_start (QuoteJSONString s @ u)"
  by (simp add: QuoteJSONString_def good_start_def is_ws_def)

lemma join_comma_Cons:
  "join_comma (t # ts) = (if ts = [] then t else t @ ch CHR '','' # join_comma ts)"
  by (cases ts) simp_all

lemma good_start_join: "ts \<noteq> [] \<Longrightarrow> good_start (hd ts) \<Longrightarrow> good_start (join_comma ts)"
  by (cases ts) (auto simp: join_comma_Cons good_start_append)

lemma serialize_json_shape:
  "json_shape v \<Longrightarrow> \<exists>t. SerializeJSONProperty v = Inr (Some t) \<and> good_start t"
  "json_shape_list vs \<Longrightarrow>
     \<exists>ts. SerializeJSONArray vs = Inr ts \<and> (vs \<noteq> [] \<longrightarrow> ts \<noteq> [] \<and> good_start (hd ts))"
  "json_shape_props ps \<Longrightarrow>
     \<exists>ts. SerializeJSONObject ps = Inr ts \<and> (ps \<noteq> [] \<longrightarrow> ts \<noteq> [] \<and> good_start (hd ts))"
proof (induction v and vs and ps rule: json_shape_json_shape_list_json_shape_props.induct)
  case 1
  show ?case by (simp add: good_start_def is_ws_def str_def)
next
  case (2 b)
  show ?case by (simp add: good_start_def is_ws_def str_def)
next
  case (3 x)
  show ?case by (simp add: good_start_number)
next
  case (4 s)
  show ?case using good_start_quote [of s "[]"] by simp
next
  case (5 vs)
  then obtain ts where "SerializeJSONArray vs = Inr ts" by auto
  then show ?case by (simp add: good_start_def is_ws_def)
next
  case (6 ps)
  then obtain ts where "SerializeJSONObject ps = Inr ts" by auto
  then show ?case by (simp add: good_start_def is_ws_def)
next
  case (16 v vs)
  then obtain t ts where "SerializeJSONProperty v = Inr (Some t)" "good_start t"
    "SerializeJSONArray vs = Inr ts" by auto
  then show ?case by simp
next
  case (18 k v ps)
  then obtain t ts where "SerializeJSONProperty v = Inr (Some t)"
    "SerializeJSONObject ps = Inr ts" by auto
  then show ?case using good_start_quote by simp
qed simp_all

lemma skip_ws_Cons: "\<not> is_ws c \<Longrightarrow> skip_ws (c # s) = c # s"
  by (simp add: skip_ws_def)

lemma delim_punct:
  "delim (ch CHR '','' # s)" "delim (ch CHR '']'' # s)" "delim (ch CHR ''}'' # s)"
  by (simp_all add: delim_def)

lemma parse_value_literal:
  assumes "t = str ''null'' \<and> v = JNull \<or> t = str ''true'' \<and> v = JBool True
           \<or> t = str ''false'' \<and> v = JBool False"
  shows "parse_value (Suc f) (t @ rest) = Some (v, rest)"
  using assms by (auto simp: skip_ws_def is_ws_def is_digit_def parse_literal_def str_def)

lemma parse_value_number:
  assumes "canonical x" and "delim rest"
  shows "parse_value (Suc f) (number_to_string x @ rest)
         = Some (JNumber (unsign_number x), rest)"
proof -
  obtain c cs where cs: "number_to_string x = c # cs" and c: "c = ch CHR ''-'' \<or> is_digit c"
    using number_start [of x] by blast
  from c have ne: "c \<noteq> ch CHR ''{''" "c \<noteq> ch CHR ''[''" "c \<noteq> ch CHR 0x22" "\<not> is_ws c"
    by (auto simp: is_digit_def is_ws_def)
  have "parse_number (c # cs @ rest) = Some (JNumber (unsign_number x), rest)"
    using parse_number_round_trip [OF assms] cs by simp
  with ne c cs show ?thesis
    by (simp add: skip_ws_Cons)
qed

lemma parse_value_string:
  "parse_value (Suc f) (QuoteJSONString s @ rest) = Some (JString s, rest)"
  using parse_chars_round_trip [of s rest]
  by (simp add: QuoteJSONString_def skip_ws_Cons is_ws_def)

lemma parse_value_empty_array:
  "parse_value (Suc f) (ch CHR ''['' # ch CHR '']'' # rest) = Some (JArray [], rest)"
  by (simp add: skip_ws_Cons is_ws_def)

lemma parse_value_empty_object:
  "parse_value (Suc f) (ch CHR ''{'' # ch CHR ''}'' # rest) = Some (JObject [], rest)"
  by (simp add: skip_ws_Cons is_ws_def)

lemma parse_value_array:
  assumes "good_start u" and "parse_elements f (u @ w) = Some (vs, rest)"
  shows "parse_value (Suc f) (ch CHR ''['' # u @ w) = Some (JArray vs, rest)"
proof -
  from assms(1) obtain d r where u: "u = d # r" and d: "\<not> is_ws d" "d \<noteq> ch CHR '']''"
    by (cases u) (auto simp: good_start_def)
  with assms(2) show ?thesis
    by (simp add: skip_ws_Cons is_ws_def)
qed

lemma parse_value_object:
  assumes "good_start u" and "parse_members f (u @ w) = Some (ps, rest)"
    and "distinct (map fst ps)"
  shows "parse_value (Suc f) (ch CHR ''{'' # u @ w) = Some (JObject ps, rest)"
proof -
  from assms(1) obtain d r where u: "u = d # r" and d: "\<not> is_ws d" "d \<noteq> ch CHR ''}''"
    by (cases u) (auto simp: good_start_def)
  with assms(2) make_object_distinct [OF assms(3)] show ?thesis
    by (simp add: skip_ws_Cons is_ws_def)
qed

lemma parse_elements_last:
  assumes "parse_value f (t @ ch CHR '']'' # rest) = Some (v, ch CHR '']'' # rest)"
  shows "parse_elements (Suc f) (t @ ch CHR '']'' # rest) = Some ([v], rest)"
  using assms by (simp add: skip_ws_Cons is_ws_def)

lemma parse_elements_more:
  assumes "parse_value f (t @ ch CHR '','' # w) = Some (v, ch CHR '','' # w)"
    and "parse_elements f w = Some (vs, rest)"
  shows "parse_elements (Suc f) (t @ ch CHR '','' # w) = Some (v # vs, rest)"
  using assms by (simp add: skip_ws_Cons is_ws_def)

lemma parse_members_key:
  "skip_ws (QuoteJSONString k @ ch CHR '':'' # w) = ch CHR 0x22 # quote_chars k @ 0x22 # 58 # w"
  by (simp add: QuoteJSONString_def skip_ws_Cons is_ws_def)

lemma parse_members_last:
  assumes "parse_value f (t @ ch CHR ''}'' # rest) = Some (v, ch CHR ''}'' # rest)"
  shows "parse_members (Suc f) (QuoteJSONString k @ ch CHR '':'' # t @ ch CHR ''}'' # rest)
         = Some ([(k, v)], rest)"
  using assms parse_chars_round_trip [of k "58 # t @ 125 # rest"]
        parse_members_key [of k "t @ 125 # rest"]
  by (simp add: skip_ws_Cons is_ws_def)

lemma parse_members_more:
  assumes "parse_value f (t @ ch CHR '','' # w) = Some (v, ch CHR '','' # w)"
    and "parse_members f w = Some (ps, rest)"
  shows "parse_members (Suc f) (QuoteJSONString k @ ch CHR '':'' # t @ ch CHR '','' # w)
         = Some ((k, v) # ps, rest)"
  using assms parse_chars_round_trip [of k "58 # t @ 44 # w"]
        parse_members_key [of k "t @ 44 # w"]
  by (simp add: skip_ws_Cons is_ws_def)

lemma unsign_props_keys: "map fst (unsign_props ps) = map fst ps"
  by (induction ps) auto

lemma parse_stringify:
  "json_shape v \<Longrightarrow> SerializeJSONProperty v = Inr (Some t) \<Longrightarrow> length t \<le> f \<Longrightarrow> delim rest \<Longrightarrow>
     parse_value f (t @ rest) = Some (unsign v, rest)"
  "json_shape_list vs \<Longrightarrow> vs \<noteq> [] \<Longrightarrow> SerializeJSONArray vs = Inr ts \<Longrightarrow>
     length (join_comma ts) < f \<Longrightarrow>
     parse_elements f (join_comma ts @ ch CHR '']'' # rest) = Some (unsign_list vs, rest)"
  "json_shape_props ps \<Longrightarrow> ps \<noteq> [] \<Longrightarrow> SerializeJSONObject ps = Inr ts \<Longrightarrow>
     length (join_comma ts) < f \<Longrightarrow>
     parse_members f (join_comma ts @ ch CHR ''}'' # rest) = Some (unsign_props ps, rest)"
proof (induction v and vs and ps arbitrary: t f rest and ts f rest and ts f rest
       rule: json_shape_json_shape_list_json_shape_props.induct)
  case 1
  then obtain f' where "f = Suc f'" by (cases f) (auto simp: str_def)
  with 1 show ?case using parse_value_literal [of t JNull f' rest] by simp
next
  case (2 b)
  then obtain f' where "f = Suc f'" by (cases f) (auto simp: str_def split: if_splits)
  with 2 show ?case using parse_value_literal [of t "JBool b" f' rest] by (cases b) simp_all
next
  case (3 x)
  then obtain f' where "f = Suc f'"
    using number_to_string_nonempty [of x] by (cases f) auto
  with 3 show ?case using parse_value_number [of x rest f'] by simp
next
  case (4 s)
  then obtain f' where "f = Suc f'" by (cases f) (auto simp: QuoteJSONString_def)
  with 4 show ?case using parse_value_string [of f' s rest] by simp
next
  case (5 vs)
  from "5.prems" have data: "json_shape_list vs" by simp
  from serialize_json_shape(2) [OF data] obtain ts
    where ts: "SerializeJSONArray vs = Inr ts"
      and start: "vs \<noteq> [] \<longrightarrow> ts \<noteq> [] \<and> good_start (hd ts)" by blast
  from "5.prems" ts have t: "t = ch CHR ''['' # join_comma ts @ [ch CHR '']'']" by simp
  with "5.prems" obtain f' where f: "f = Suc f'" by (cases f) auto
  show ?case
  proof (cases "vs = []")
    case True
    with ts have "ts = []" by simp
    with t f True show ?thesis using parse_value_empty_array [of f' rest] by simp
  next
    case False
    with start have gs: "good_start (join_comma ts)" by (simp add: good_start_join)
    from "5.prems" t f have "length (join_comma ts) < f'" by simp
    from "5.IH" [OF data False ts this]
    have "parse_elements f' (join_comma ts @ ch CHR '']'' # rest) = Some (unsign_list vs, rest)" .
    from parse_value_array [OF gs this] t f show ?thesis by simp
  qed
next
  case (6 ps)
  from "6.prems" have data: "json_shape_props ps" and dist: "distinct (map fst ps)" by simp_all
  from serialize_json_shape(3) [OF data] obtain ts
    where ts: "SerializeJSONObject ps = Inr ts"
      and start: "ps \<noteq> [] \<longrightarrow> ts \<noteq> [] \<and> good_start (hd ts)" by blast
  from "6.prems" ts have t: "t = ch CHR ''{'' # join_comma ts @ [ch CHR ''}'']" by simp
  with "6.prems" obtain f' where f: "f = Suc f'" by (cases f) auto
  show ?case
  proof (cases "ps = []")
    case True
    with ts have "ts = []" by simp
    with t f True show ?thesis using parse_value_empty_object [of f' rest] by simp
  next
    case False
    with start have gs: "good_start (join_comma ts)" by (simp add: good_start_join)
    from "6.prems" t f have "length (join_comma ts) < f'" by simp
    from "6.IH" [OF data False ts this]
    have "parse_members f' (join_comma ts @ ch CHR ''}'' # rest) = Some (unsign_props ps, rest)" .
    from parse_value_object [OF gs this] dist t f show ?thesis by (simp add: unsign_props_keys)
  qed
next
  case (16 v vs)
  from "16.prems" have dv: "json_shape v" and dvs: "json_shape_list vs" by simp_all
  from serialize_json_shape(1) [OF dv] obtain t1
    where t1: "SerializeJSONProperty v = Inr (Some t1)" by blast
  from serialize_json_shape(2) [OF dvs] obtain ts'
    where ts': "SerializeJSONArray vs = Inr ts'"
      and ne: "vs \<noteq> [] \<longrightarrow> ts' \<noteq> []" by blast
  from "16.prems" t1 ts' have ts: "ts = t1 # ts'" by simp
  from "16.prems" obtain f' where f: "f = Suc f'" by (cases f) auto
  show ?case
  proof (cases "vs = []")
    case True
    with ts' ts have j: "join_comma ts = t1" by simp
    with "16.prems" f have "length t1 \<le> f'" by simp
    from "16.IH"(1) [OF dv t1 this delim_punct(2)]
    have "parse_value f' (t1 @ ch CHR '']'' # rest) = Some (unsign v, ch CHR '']'' # rest)" .
    from parse_elements_last [OF this] j f True show ?thesis by simp
  next
    case False
    with ne have "ts' \<noteq> []" by simp
    with ts have j: "join_comma ts = t1 @ ch CHR '','' # join_comma ts'"
      by (simp add: join_comma_Cons)
    with "16.prems" f have l1: "length t1 \<le> f'" and l2: "length (join_comma ts') < f'"
      by simp_all
    from "16.IH"(1) [OF dv t1 l1 delim_punct(1)]
    have a: "parse_value f' (t1 @ ch CHR '','' # join_comma ts' @ ch CHR '']'' # rest)
             = Some (unsign v, ch CHR '','' # join_comma ts' @ ch CHR '']'' # rest)" .
    from "16.IH"(2) [OF dvs False ts' l2]
    have b: "parse_elements f' (join_comma ts' @ ch CHR '']'' # rest)
             = Some (unsign_list vs, rest)" .
    from parse_elements_more [OF a b] j f show ?thesis by simp
  qed
next
  case (18 k v ps)
  from "18.prems" have dv: "json_shape v" and dps: "json_shape_props ps" by simp_all
  from serialize_json_shape(1) [OF dv] obtain t1
    where t1: "SerializeJSONProperty v = Inr (Some t1)" by blast
  from serialize_json_shape(3) [OF dps] obtain ts'
    where ts': "SerializeJSONObject ps = Inr ts'"
      and ne: "ps \<noteq> [] \<longrightarrow> ts' \<noteq> []" by blast
  from "18.prems" t1 ts' have ts: "ts = (QuoteJSONString k @ ch CHR '':'' # t1) # ts'" by simp
  from "18.prems" obtain f' where f: "f = Suc f'" by (cases f) auto
  show ?case
  proof (cases "ps = []")
    case True
    with ts' ts have j: "join_comma ts = QuoteJSONString k @ ch CHR '':'' # t1" by simp
    with "18.prems" f have "length t1 \<le> f'" by simp
    from "18.IH"(1) [OF dv t1 this delim_punct(3)]
    have "parse_value f' (t1 @ ch CHR ''}'' # rest) = Some (unsign v, ch CHR ''}'' # rest)" .
    from parse_members_last [OF this, of k] j f True show ?thesis by simp
  next
    case False
    with ne have "ts' \<noteq> []" by simp
    with ts have j: "join_comma ts
                     = (QuoteJSONString k @ ch CHR '':'' # t1) @ ch CHR '','' # join_comma ts'"
      by (simp add: join_comma_Cons)
    with "18.prems" f have l1: "length t1 \<le> f'" and l2: "length (join_comma ts') < f'"
      by simp_all
    from "18.IH"(1) [OF dv t1 l1 delim_punct(1)]
    have a: "parse_value f' (t1 @ ch CHR '','' # join_comma ts' @ ch CHR ''}'' # rest)
             = Some (unsign v, ch CHR '','' # join_comma ts' @ ch CHR ''}'' # rest)" .
    from "18.IH"(2) [OF dps False ts' l2]
    have b: "parse_members f' (join_comma ts' @ ch CHR ''}'' # rest)
             = Some (unsign_props ps, rest)" .
    from parse_members_more [OF a b, of k] j f show ?thesis by simp
  qed
qed simp_all

lemma json_data_shape:
  "json_data v \<Longrightarrow> json_shape v \<and> unsign v = v"
  "json_data_list vs \<Longrightarrow> json_shape_list vs \<and> unsign_list vs = vs"
  "json_data_props ps \<Longrightarrow> json_shape_props ps \<and> unsign_props ps = ps"
proof (induction v and vs and ps rule: json_data_json_data_list_json_data_props.induct)
  case (3 x)
  then show ?case
    by (cases x) (auto simp: unsign_number_def canonical_def)
qed simp_all

lemma JSON_parse_unsign:
  assumes "json_shape v"
  shows "\<exists>t. JSON_stringify v = Inr (JString t) \<and> JSON_parse t = Inr (unsign v)"
proof -
  from serialize_json_shape(1) [OF assms] obtain t
    where t: "SerializeJSONProperty v = Inr (Some t)" by blast
  have "delim []" by (simp add: delim_def)
  from parse_stringify(1) [OF assms t _ this, of "Suc (length t)"]
  have "parse_value (Suc (length t)) t = Some (unsign v, [])" by simp
  then have "JSON_parse t = Inr (unsign v)"
    by (simp add: JSON_parse_def skip_ws_def)
  with t show ?thesis by (simp add: JSON_stringify_def)
qed

lemma JSON_parse_stringify:
  assumes "json_data v"
  shows "\<exists>t. JSON_stringify v = Inr (JString t) \<and> JSON_parse t = Inr v"
  using JSON_parse_unsign [of v] json_data_shape(1) [OF assms] by simp

lemma JSON_parse_text:
  "json_data v \<Longrightarrow> JSON_stringify v = Inr (JString t) \<Longrightarrow> JSON_parse t = Inr v"
  using JSON_parse_stringify [of v] by auto

section \<open>What JSON.parse returns\<close>

lemma normalize_result:
  "normalize s e = (s', e') \<Longrightarrow> canonical (Number b s' e')"
proof (induction s e rule: normalize.induct)
  case (1 s e)
  show ?case
  proof (cases "s = 0")
    case True
    with "1.prems" show ?thesis
      by (subst (asm) normalize.simps) (simp add: canonical_def)
  next
    case False
    show ?thesis
    proof (cases "s mod 10 = 0")
      case True
      with False "1.prems" have "normalize (s div 10) (e + 1) = (s', e')"
        by (subst (asm) normalize.simps) simp
      with False True "1.IH" show ?thesis by simp
    next
      case nz: False
      with False "1.prems" show ?thesis
        by (subst (asm) normalize.simps) (auto simp: canonical_def)
    qed
  qed
qed

lemma parse_unsigned_shape:
  "parse_unsigned s = Some ((n, e), r) \<Longrightarrow> canonical (Number b n e)"
  by (auto simp: parse_unsigned_def split: option.splits prod.splits dest: normalize_result)

lemma parse_number_shape: "parse_number s = Some (v, r) \<Longrightarrow> json_shape v"
  by (cases s) (auto simp: parse_number_def split: if_splits dest: parse_unsigned_shape)

lemma parse_literal_shape: "parse_literal s = Some (v, r) \<Longrightarrow> json_shape v"
  by (auto simp: parse_literal_def split: if_splits)

lemma obj_put_keys: "set (map fst (obj_put k v acc)) = insert k (set (map fst acc))"
proof (induction acc)
  case Nil
  show ?case by simp
next
  case (Cons p acc)
  obtain k' v' where p: "p = (k', v')" by (cases p)
  show ?case
  proof (cases "k = k'")
    case True
    with p show ?thesis by simp
  next
    case False
    with p Cons.IH show ?thesis by (simp add: insert_commute)
  qed
qed

lemma obj_put_distinct: "distinct (map fst acc) \<Longrightarrow> distinct (map fst (obj_put k v acc))"
proof (induction acc)
  case Nil
  show ?case by simp
next
  case (Cons p acc)
  obtain k' v' where p: "p = (k', v')" by (cases p)
  show ?case
  proof (cases "k = k'")
    case True
    with Cons.prems p show ?thesis by simp
  next
    case False
    from Cons.prems p have "k' \<notin> set (map fst acc)" and "distinct (map fst acc)" by auto
    with False Cons.IH p obj_put_keys [of k v acc] show ?thesis by simp
  qed
qed

lemma obj_put_shape:
  "json_shape v \<Longrightarrow> json_shape_props acc \<Longrightarrow> json_shape_props (obj_put k v acc)"
  by (induction acc) auto

lemma make_object_foldl_shape:
  "json_shape_props ms \<Longrightarrow> distinct (map fst acc) \<Longrightarrow> json_shape_props acc \<Longrightarrow>
     distinct (map fst (foldl (\<lambda>acc (k, v). obj_put k v acc) acc ms))
     \<and> json_shape_props (foldl (\<lambda>acc (k, v). obj_put k v acc) acc ms)"
proof (induction ms arbitrary: acc)
  case Nil
  then show ?case by simp
next
  case (Cons m ms)
  obtain k v where m: "m = (k, v)" by (cases m)
  with Cons.prems have "json_shape v" and "json_shape_props ms" by simp_all
  with Cons.prems Cons.IH [of "obj_put k v acc"] m show ?case
    by (simp add: obj_put_distinct obj_put_shape)
qed

lemma make_object_shape:
  "json_shape_props ms \<Longrightarrow> json_shape (JObject (make_object ms))"
  using make_object_foldl_shape [of ms "[]"] by (simp add: make_object_def)

lemma parse_shape:
  "(\<forall>s v r. parse_value f s = Some (v, r) \<longrightarrow> json_shape v)
   \<and> (\<forall>s vs r. parse_elements f s = Some (vs, r) \<longrightarrow> json_shape_list vs)
   \<and> (\<forall>s ms r. parse_members f s = Some (ms, r) \<longrightarrow> json_shape_props ms)"
proof (induction f)
  case 0
  show ?case by simp
next
  case (Suc f)
  then have ihv: "\<And>s v r. parse_value f s = Some (v, r) \<Longrightarrow> json_shape v"
    and ihe: "\<And>s vs r. parse_elements f s = Some (vs, r) \<Longrightarrow> json_shape_list vs"
    and ihm: "\<And>s ms r. parse_members f s = Some (ms, r) \<Longrightarrow> json_shape_props ms"
    by blast+
  have a: "json_shape v" if "parse_value (Suc f) s = Some (v, r)" for s v r
    using that
    by (auto split: list.splits if_splits
             dest: parse_number_shape parse_literal_shape ihe ihm
             intro: make_object_shape)
  have b: "json_shape_list vs" if "parse_elements (Suc f) s = Some (vs, r)" for s vs r
    using that
    by (auto split: list.splits if_splits option.splits prod.splits dest: ihv ihe)
  have c: "json_shape_props ms" if "parse_members (Suc f) s = Some (ms, r)" for s ms r
    using that
    by (auto split: list.splits if_splits option.splits prod.splits dest: ihv ihm)
  from a b c show ?case by blast
qed

lemma JSON_parse_shape:
  assumes "JSON_parse t = Inr v"
  shows "json_shape v"
proof -
  from assms obtain r where "parse_value (Suc (length t)) t = Some (v, r)"
    by (cases "parse_value (Suc (length t)) t")
       (auto simp: JSON_parse_def simp del: parse_value.simps split: if_splits)
  with parse_shape [of "Suc (length t)"] show ?thesis by blast
qed

lemma shape_unsign_fixed:
  "json_shape v \<Longrightarrow> unsign v = v \<Longrightarrow> json_data v"
  "json_shape_list vs \<Longrightarrow> unsign_list vs = vs \<Longrightarrow> json_data_list vs"
  "json_shape_props ps \<Longrightarrow> unsign_props ps = ps \<Longrightarrow> json_data_props ps"
proof (induction v and vs and ps rule: json_shape_json_shape_list_json_shape_props.induct)
  case (3 x)
  then show ?case
    by (cases x) (auto simp: unsign_number_def split: if_splits)
qed simp_all

lemma round_trip_only_json_data:
  assumes "JSON_stringify R = Inr (JString t)" and "JSON_parse t = Inr R"
  shows "json_data R"
proof -
  from assms(2) have shape: "json_shape R" by (rule JSON_parse_shape)
  from JSON_parse_unsign [OF shape] assms have "unsign R = R" by auto
  with shape show ?thesis by (rule shape_unsign_fixed(1))
qed

section \<open>The repository and the layers above it\<close>

text \<open>
  C6. On a fresh store, with no prior save, \<open>getAllUsers\<close> returns \<open>null\<close>; it returns a
  value (the model has no error result for it) and leaves the store as it was.
\<close>

theorem getAllUsers_fresh_is_null:
  "getAllUsers fresh = (JNull, fresh)"
  by (simp add: getAllUsers_def getItem_def Map_get_def js_or_def fresh_def)

text \<open>
  C3. For every input on which \<open>JSON.stringify\<close> throws, and every prior store,
  \<open>saveUser\<close> returns \<open>false\<close> (a value, not a throw) and the store is unchanged.
\<close>

theorem saveUser_not_serializable:
  "\<not> serializable R \<Longrightarrow> saveUser R ls = (False, ls)"
  by (simp add: serializable_def saveUser_def split: sum.splits)

theorem saveUser_not_serializable_witness:
  "\<not> serializable (JObject [(str ''self'', JCircular)])
   \<and> saveUser (JObject [(str ''self'', JCircular)]) (snd (saveUser userData fresh))
       = (False, snd (saveUser userData fresh))
   \<and> storage (snd (saveUser userData fresh)) LSuserDetails
       = Some (JString (str ''{\"id\":1,\"name\":\"John Doe\",\"email\":\"john@example.com\"}''))"
proof -
  have ns: "\<not> serializable (JObject [(str ''self'', JCircular)])"
    by (simp add: serializable_def JSON_stringify_def)
  have st: "storage (snd (saveUser userData fresh)) LSuserDetails
       = Some (JString (str ''{\"id\":1,\"name\":\"John Doe\",\"email\":\"john@example.com\"}''))"
    by (simp add: eval_simps)
  from ns st saveUser_not_serializable [OF ns, of "snd (saveUser userData fresh)"]
  show ?thesis by simp
qed

text \<open>
  C4. When a save of \<open>R1\<close> and then a save of \<open>R2\<close> both succeed, the store is the one a
  save of \<open>R2\<close> alone would have left (nothing of \<open>R1\<close> is retained), the value under the
  key is the serialization of \<open>R2\<close>, and a serialization that is a text is what
  \<open>getAllUsers\<close> returns.
\<close>

theorem last_write_wins:
  "fst (saveUser R1 ls) \<Longrightarrow> fst (saveUser R2 (snd (saveUser R1 ls))) \<Longrightarrow>
     snd (saveUser R2 (snd (saveUser R1 ls))) = snd (saveUser R2 ls)
   \<and> JSON_stringify R2
       = Inr (Map_get (storage (snd (saveUser R2 (snd (saveUser R1 ls))))) LSuserDetails)
   \<and> (\<forall>s. JSON_stringify R2 = Inr (JString s) \<longrightarrow>
          fst (getAllUsers (snd (saveUser R2 (snd (saveUser R1 ls))))) = JString s)"
proof -
  assume "fst (saveUser R1 ls)" and ok2: "fst (saveUser R2 (snd (saveUser R1 ls)))"
  from ok2 obtain t where t: "JSON_stringify R2 = Inr t"
    by (cases "JSON_stringify R2") (simp_all add: saveUser_def)
  have a: "snd (saveUser R2 (snd (saveUser R1 ls))) = snd (saveUser R2 ls)"
    by (simp add: saveUser_def setItem_def t split: sum.splits)
  have b: "JSON_stringify R2
         = Inr (Map_get (storage (snd (saveUser R2 (snd (saveUser R1 ls))))) LSuserDetails)"
    by (simp add: saveUser_Inr [OF t] setItem_def Map_get_def t)
  have c: "fst (getAllUsers (snd (saveUser R2 (snd (saveUser R1 ls))))) = JString s"
    if s: "JSON_stringify R2 = Inr (JString s)" for s
    using JSON_stringify_text_truthy [OF s]
    by (simp add: saveUser_Inr [OF s] getAllUsers_def getItem_setItem js_or_def)
  from a b c show ?thesis by blast
qed

theorem last_write_wins_witness:
  "fst (saveUser userData fresh)
   \<and> fst (saveUser userData2 (snd (saveUser userData fresh)))
   \<and> snd (saveUser userData2 (snd (saveUser userData fresh))) = snd (saveUser userData2 fresh)
   \<and> JSON_stringify userData2 = Inr (JString (str ''{\"id\":2,\"name\":\"Jane\"}''))
   \<and> fst (getAllUsers (snd (saveUser userData2 (snd (saveUser userData fresh)))))
       = JString (str ''{\"id\":2,\"name\":\"Jane\"}'')"
proof -
  have h1: "fst (saveUser userData fresh)"
    by (simp add: eval_simps)
  have h2: "fst (saveUser userData2 (snd (saveUser userData fresh)))"
    by (simp add: eval_simps)
  have t2: "JSON_stringify userData2 = Inr (JString (str ''{\"id\":2,\"name\":\"Jane\"}''))"
    by (simp add: eval_simps)
  from last_write_wins [OF h1 h2] h1 h2 t2 show ?thesis by blast
qed

text \<open>
  C5. The controller and the service add nothing: through the wiring of the main script,
  and through the same wiring over any repository, \<open>saveUserData\<close> is the repository's
  \<open>saveUser\<close> (same returned flag, same resulting store) and \<open>getAllUserData\<close> is the
  repository's \<open>getAllUsers\<close>.
\<close>

theorem layers_are_transparent:
  "saveUserData userController R ls = saveUser R ls
   \<and> getAllUserData userController ls = getAllUsers ls
   \<and> svc_saveUser businessService R ls = saveUser R ls
   \<and> svc_getAllUsers businessService ls = getAllUsers ls
   \<and> saveUserData (UserController_new (BussinessService repo)) R ls = repo_saveUser repo R ls
   \<and> getAllUserData (UserController_new (BussinessService repo)) ls = repo_getAllUsers repo ls"
  by (simp add: saveUserData_def getAllUserData_def userController_def UserController_new_def
                businessService_def BussinessService_def BussinessService_new_def
                BussinessService_saveUser_def BussinessService_getAllUsers_def
                userRepositoryService_def UserRepositoryService_def)

text \<open>
  C7. In every store reached from the fresh one by calls of \<open>saveUser\<close> and
  \<open>getAllUsers\<close>, a text stored under the key is returned by \<open>getAllUsers\<close> as it is,
  a string and not a parsed value; and right after a save whose serialization is the
  text \<open>s\<close>, \<open>getAllUsers\<close> returns the string \<open>s\<close>.
\<close>

theorem getAllUsers_returns_raw_text:
  "(storage (run cs fresh) LSuserDetails = Some (JString s) \<longrightarrow>
      fst (getAllUsers (run cs fresh)) = JString s)
   \<and> (JSON_stringify R = Inr (JString s) \<longrightarrow>
      fst (getAllUsers (snd (saveUser R ls))) = JString s)"
proof -
  have "stored_ok (run cs fresh)"
    by (rule run_stored_ok [OF fresh_stored_ok])
  then have a: "fst (getAllUsers (run cs fresh)) = JString s"
    if "storage (run cs fresh) LSuserDetails = Some (JString s)"
    using that by (simp add: stored_ok_def getAllUsers_def getItem_def Map_get_def js_or_def)
  have b: "fst (getAllUsers (snd (saveUser R ls))) = JString s"
    if s: "JSON_stringify R = Inr (JString s)"
    using JSON_stringify_text_truthy [OF s]
    by (simp add: saveUser_Inr [OF s] getAllUsers_def getItem_setItem js_or_def)
  from a b show ?thesis by blast
qed

theorem getAllUsers_returns_raw_text_witness:
  "storage (run [SaveUser userData, GetAllUsers] fresh) LSuserDetails
     = Some (JString (str ''{\"id\":1,\"name\":\"John Doe\",\"email\":\"john@example.com\"}''))
   \<and> fst (getAllUsers (run [SaveUser userData, GetAllUsers] fresh))
     = JString (str ''{\"id\":1,\"name\":\"John Doe\",\"email\":\"john@example.com\"}'')
   \<and> JSON_stringify userData2 = Inr (JString (str ''{\"id\":2,\"name\":\"Jane\"}''))
   \<and> fst (getAllUsers (snd (saveUser userData2 fresh))) = JString (str ''{\"id\":2,\"name\":\"Jane\"}'')"
proof -
  have h1: "storage (run [SaveUser userData, GetAllUsers] fresh) LSuserDetails
     = Some (JString (str ''{\"id\":1,\"name\":\"John Doe\",\"email\":\"john@example.com\"}''))"
    by (simp add: run_def eval_simps)
  have h2: "JSON_stringify userData2 = Inr (JString (str ''{\"id\":2,\"name\":\"Jane\"}''))"
    by (simp add: eval_simps)
  from getAllUsers_returns_raw_text
         [of "[SaveUser userData, GetAllUsers]"
             "str ''{\"id\":1,\"name\":\"John Doe\",\"email\":\"john@example.com\"}''" userData2 fresh]
       getAllUsers_returns_raw_text
         [of "[]" "str ''{\"id\":2,\"name\":\"Jane\"}''" userData2 fresh]
       h1 h2
  show ?thesis by blast
qed

text \<open>
  C8. Every store reached from the fresh one by calls of \<open>saveUser\<close> and \<open>getAllUsers\<close>
  holds at most the one key \<open>LSuserDetails\<close>, and a successful save in such a store
  leaves exactly that key, bound to the serialization of the record just saved.
\<close>

theorem store_holds_one_record:
  "dom (storage (run cs fresh)) \<subseteq> {LSuserDetails}
   \<and> (fst (saveUser R (run cs fresh)) \<longrightarrow>
        (\<exists>t. JSON_stringify R = Inr t
           \<and> storage (snd (saveUser R (run cs fresh))) = [LSuserDetails \<mapsto> t]))"
proof -
  have d: "dom (storage (run cs fresh)) \<subseteq> {LSuserDetails}"
    by (rule run_dom [OF fresh_dom])
  have "\<exists>t. JSON_stringify R = Inr t
           \<and> storage (snd (saveUser R (run cs fresh))) = [LSuserDetails \<mapsto> t]"
    if ok: "fst (saveUser R (run cs fresh))"
  proof -
    from ok obtain t where t: "JSON_stringify R = Inr t"
      by (cases "JSON_stringify R") (simp_all add: saveUser_def)
    have "storage (snd (saveUser R (run cs fresh))) = (storage (run cs fresh))(LSuserDetails \<mapsto> t)"
      by (simp add: storage_saveUser t)
    with single_key_map [OF d] t show ?thesis by simp
  qed
  with d show ?thesis by blast
qed

theorem store_holds_one_record_witness:
  "dom (storage (run [SaveUser userData, GetAllUsers] fresh)) \<subseteq> {LSuserDetails}
   \<and> fst (saveUser userData2 (run [SaveUser userData, GetAllUsers] fresh))
   \<and> storage (snd (saveUser userData2 (run [SaveUser userData, GetAllUsers] fresh)))
       = [LSuserDetails \<mapsto> JString (str ''{\"id\":2,\"name\":\"Jane\"}'')]"
proof -
  have h: "fst (saveUser userData2 (run [SaveUser userData, GetAllUsers] fresh))"
    by (simp add: saveUser_True_iff serializable_def eval_simps)
  have t2: "JSON_stringify userData2 = Inr (JString (str ''{\"id\":2,\"name\":\"Jane\"}''))"
    by (simp add: eval_simps)
  from store_holds_one_record [of "[SaveUser userData, GetAllUsers]" userData2] h t2
  show ?thesis by auto
qed

text \<open>
  C9. For every input that \<open>JSON.stringify\<close> maps to \<open>undefined\<close>, \<open>saveUser\<close> returns
  \<open>true\<close> and the \<open>getAllUsers\<close> that follows returns \<open>null\<close>.
\<close>

theorem saveUser_undefined_text:
  "JSON_stringify R = Inr JUndefined \<Longrightarrow>
     fst (saveUser R ls) \<and> fst (getAllUsers (snd (saveUser R ls))) = JNull"
  by (simp add: saveUser_Inr getAllUsers_def getItem_setItem js_or_def)

theorem saveUser_undefined_text_witness:
  "JSON_stringify JUndefined = Inr JUndefined
   \<and> fst (saveUser JUndefined fresh)
   \<and> fst (getAllUsers (snd (saveUser JUndefined fresh))) = JNull
   \<and> JSON_stringify JFunction = Inr JUndefined
   \<and> fst (saveUser JFunction (snd (saveUser userData fresh)))
   \<and> fst (getAllUsers (snd (saveUser JFunction (snd (saveUser userData fresh))))) = JNull"
proof -
  have u: "JSON_stringify JUndefined = Inr JUndefined"
    by (simp add: JSON_stringify_def)
  have f: "JSON_stringify JFunction = Inr JUndefined"
    by (simp add: JSON_stringify_def)
  from saveUser_undefined_text [OF u, of fresh]
       saveUser_undefined_text [OF f, of "snd (saveUser userData fresh)"] u f
  show ?thesis by blast
qed

text \<open>
  C10. \<open>getItem\<close> returns \<open>null\<close> for a key bound to the empty string, as it does for
  every falsy stored value, so for such a key it answers as the fresh store does; in
  particular \<open>getAllUsers\<close> answers \<open>null\<close> both on the fresh store and on a store that
  holds the empty string under \<open>LSuserDetails\<close>.
\<close>

theorem getItem_empty_string_is_null:
  "(storage ls key = Some (JString []) \<longrightarrow>
      getItem key ls = JNull \<and> getItem key ls = getItem key fresh)
   \<and> (storage ls key = Some v \<and> \<not> truthy v \<longrightarrow> getItem key ls = JNull)
   \<and> (storage ls LSuserDetails = Some (JString []) \<longrightarrow>
      fst (getAllUsers ls) = JNull \<and> fst (getAllUsers ls) = fst (getAllUsers fresh))"
  by (simp add: getItem_def getAllUsers_def Map_get_def js_or_def fresh_def)

theorem getItem_empty_string_is_null_witness:
  "storage (setItem LSuserDetails (JString []) fresh) LSuserDetails = Some (JString [])
   \<and> getItem LSuserDetails (setItem LSuserDetails (JString []) fresh) = JNull
   \<and> fst (getAllUsers (setItem LSuserDetails (JString []) fresh)) = fst (getAllUsers fresh)
   \<and> \<not> truthy (JNumber (number_of_int 0))
   \<and> getItem (str ''k'') (setItem (str ''k'') (JNumber (number_of_int 0)) fresh) = JNull"
proof -
  have h: "storage (setItem LSuserDetails (JString []) fresh) LSuserDetails = Some (JString [])"
    by (simp add: setItem_def)
  have k: "storage (setItem (str ''k'') (JNumber (number_of_int 0)) fresh) (str ''k'')
           = Some (JNumber (number_of_int 0))"
    by (simp add: setItem_def)
  have nt: "\<not> truthy (JNumber (number_of_int 0))"
    by (simp add: number_of_int_def normalize.simps)
  from getItem_empty_string_is_null
         [of "setItem LSuserDetails (JString []) fresh" LSuserDetails JUndefined]
       getItem_empty_string_is_null
         [of "setItem (str ''k'') (JNumber (number_of_int 0)) fresh" "str ''k''"
             "JNumber (number_of_int 0)"] h k nt
  show ?thesis by blast
qed

text \<open>
  C1, as stated, fails: the record \<open>{id: 1, score: NaN}\<close> is serializable and its save
  returns \<open>true\<close>, but the text that \<open>getAllUsers\<close> returns parses to
  \<open>{id: 1, score: null}\<close>, which is another value.
\<close>

theorem round_trip_counterexample:
  "serializable scoreRecord
   \<and> fst (saveUser scoreRecord fresh)
   \<and> fst (getAllUsers (snd (saveUser scoreRecord fresh))) = JString (str ''{\"id\":1,\"score\":null}'')
   \<and> JSON_parse (str ''{\"id\":1,\"score\":null}'') = Inr (JObject [(str ''id'', JNumber (number_of_int 1)), (str ''score'', JNull)])
   \<and> JObject [(str ''id'', JNumber (number_of_int 1)), (str ''score'', JNull)] \<noteq> scoreRecord"
proof -
  have a: "serializable scoreRecord"
    by (simp add: serializable_def scoreRecord_def eval_simps)
  have b: "fst (saveUser scoreRecord fresh)"
    by (simp add: scoreRecord_def eval_simps)
  have c: "fst (getAllUsers (snd (saveUser scoreRecord fresh)))
           = JString (str ''{\"id\":1,\"score\":null}'')"
    by (simp add: scoreRecord_def eval_simps)
  have d: "json_data (JObject [(str ''id'', JNumber (number_of_int 1)), (str ''score'', JNull)])"
    by (simp add: data_simps)
  have e: "JSON_stringify (JObject [(str ''id'', JNumber (number_of_int 1)), (str ''score'', JNull)])
           = Inr (JString (str ''{\"id\":1,\"score\":null}''))"
    by (simp add: eval_simps)
  have f: "JObject [(str ''id'', JNumber (number_of_int 1)), (str ''score'', JNull)] \<noteq> scoreRecord"
    by (simp add: scoreRecord_def)
  from a b c JSON_parse_text [OF d e] f show ?thesis by blast
qed

text \<open>
  C1, amended. For every record built only from \<open>null\<close>, booleans, finite numbers other
  than the negative zero, strings, and arrays and objects of such values, and for every
  store, \<open>saveUser\<close> returns \<open>true\<close>, and the \<open>getAllUsers\<close> that follows returns a string
  that \<open>JSON.parse\<close> maps back to the record.
\<close>

theorem saveUser_round_trip:
  "json_data R \<Longrightarrow>
     fst (saveUser R ls)
     \<and> (\<exists>t. fst (getAllUsers (snd (saveUser R ls))) = JString t \<and> JSON_parse t = Inr R)"
proof -
  assume "json_data R"
  from JSON_parse_stringify [OF this] obtain t
    where t: "JSON_stringify R = Inr (JString t)" and p: "JSON_parse t = Inr R" by blast
  from JSON_stringify_text_truthy [OF t]
  have "fst (getAllUsers (snd (saveUser R ls))) = JString t"
    by (simp add: saveUser_Inr [OF t] getAllUsers_def getItem_setItem js_or_def)
  with p show ?thesis by (simp add: saveUser_Inr [OF t])
qed

theorem saveUser_round_trip_witness:
  "json_data plainRecord
   \<and> fst (saveUser plainRecord fresh)
   \<and> fst (getAllUsers (snd (saveUser plainRecord fresh)))
       = JString (str ''{\"id\":1,\"score\":0.1,\"big\":1.5e+21,\"name\":\"''
                  @ [0x4E2D, 0x6587] @ str ''\",\"tags\":[true,null]}'')
   \<and> JSON_parse (str ''{\"id\":1,\"score\":0.1,\"big\":1.5e+21,\"name\":\"''
                   @ [0x4E2D, 0x6587] @ str ''\",\"tags\":[true,null]}'')
       = Inr plainRecord"
proof -
  have d: "json_data plainRecord"
    by (simp add: plainRecord_def data_simps)
  have e: "fst (getAllUsers (snd (saveUser plainRecord fresh)))
       = JString (str ''{\"id\":1,\"score\":0.1,\"big\":1.5e+21,\"name\":\"''
                  @ [0x4E2D, 0x6587] @ str ''\",\"tags\":[true,null]}'')"
    by (simp add: plainRecord_def eval_simps)
  from saveUser_round_trip [OF d, of fresh] d e show ?thesis by auto
qed

text \<open>
  Conversely, a record that a save and the read after it hand back unchanged is plain
  JSON data: the round-trip law holds on these records and on no other.
\<close>

lemma round_trip_is_json_data:
  assumes "fst (saveUser R ls)"
    and "fst (getAllUsers (snd (saveUser R ls))) = JString t"
    and "JSON_parse t = Inr R"
  shows "json_data R"
proof -
  from assms(1) obtain r where r: "JSON_stringify R = Inr r"
    by (cases "JSON_stringify R") (simp_all add: saveUser_def)
  from assms(2) have "js_or r JNull = JString t"
    by (simp add: saveUser_Inr [OF r] getAllUsers_def getItem_setItem)
  then have "r = JString t"
    by (simp add: js_or_def split: if_splits)
  with r assms(3) show ?thesis
    by (intro round_trip_only_json_data) simp_all
qed

text \<open>
  C2, as stated, fails at its second step: what \<open>getAllUserData\<close> returns after the save
  is a string, the JSON text of the record, and not a value equal to the record.
\<close>

theorem scenario_counterexample:
  "fst (getAllUserData userController scenario_store1) \<noteq> userData"
proof -
  have "fst (getAllUserData userController scenario_store1)
        = JString (str ''{\"id\":1,\"name\":\"John Doe\",\"email\":\"john@example.com\"}'')"
    by (simp add: scenario_store1_def layer_defs eval_simps)
  then show ?thesis by (simp add: userData_def)
qed

text \<open>
  C2, amended. From the fresh store, saving \<open>{id: 1, name: "John Doe", email:
  "john@example.com"}\<close> through the controller returns \<open>true\<close>; the \<open>getAllUserData\<close> that
  follows returns the JSON text of that record, a string that \<open>JSON.parse\<close> maps back to
  the record; after a further save of \<open>{id: 2, name: "Jane"}\<close>, which returns \<open>true\<close>,
  \<open>getAllUserData\<close> returns the JSON text of the second record and the store holds nothing
  else.
\<close>

theorem scenario_through_controller:
  "fst (saveUserData userController userData fresh)
   \<and> fst (getAllUserData userController scenario_store1)
       = JString (str ''{\"id\":1,\"name\":\"John Doe\",\"email\":\"john@example.com\"}'')
   \<and> JSON_parse (str ''{\"id\":1,\"name\":\"John Doe\",\"email\":\"john@example.com\"}'') = Inr userData
   \<and> fst (saveUserData userController userData2
            (snd (getAllUserData userController scenario_store1)))
   \<and> fst (getAllUserData userController scenario_store2) = JString (str ''{\"id\":2,\"name\":\"Jane\"}'')
   \<and> JSON_parse (str ''{\"id\":2,\"name\":\"Jane\"}'') = Inr userData2
   \<and> storage scenario_store2 = [LSuserDetails \<mapsto> JString (str ''{\"id\":2,\"name\":\"Jane\"}'')]"
proof -
  have t1: "JSON_stringify userData
            = Inr (JString (str ''{\"id\":1,\"name\":\"John Doe\",\"email\":\"john@example.com\"}''))"
    by (simp add: eval_simps)
  have t2: "JSON_stringify userData2 = Inr (JString (str ''{\"id\":2,\"name\":\"Jane\"}''))"
    by (simp add: eval_simps)
  have d1: "json_data userData" by (simp add: userData_def data_simps)
  have d2: "json_data userData2" by (simp add: userData2_def data_simps)
  have s1: "scenario_store1
            = setItem LSuserDetails
                (JString (str ''{\"id\":1,\"name\":\"John Doe\",\"email\":\"john@example.com\"}'')) fresh"
    by (simp add: scenario_store1_def layer_defs saveUser_Inr [OF t1])
  have s2: "scenario_store2
            = setItem LSuserDetails (JString (str ''{\"id\":2,\"name\":\"Jane\"}'')) scenario_store1"
    by (simp add: scenario_store2_def layer_defs saveUser_Inr [OF t2] getAllUsers_def)
  have a: "fst (saveUserData userController userData fresh)"
    by (simp add: layer_defs saveUser_Inr [OF t1])
  have b: "fst (getAllUserData userController scenario_store1)
       = JString (str ''{\"id\":1,\"name\":\"John Doe\",\"email\":\"john@example.com\"}'')"
    by (simp add: s1 layer_defs getAllUsers_def getItem_setItem js_or_def str_def)
  have c: "fst (saveUserData userController userData2
            (snd (getAllUserData userController scenario_store1)))"
    by (simp add: layer_defs saveUser_Inr [OF t2])
  have d: "fst (getAllUserData userController scenario_store2)
           = JString (str ''{\"id\":2,\"name\":\"Jane\"}'')"
    by (simp add: s2 layer_defs getAllUsers_def getItem_setItem js_or_def str_def)
  have e: "storage scenario_store2 = [LSuserDetails \<mapsto> JString (str ''{\"id\":2,\"name\":\"Jane\"}'')]"
    by (simp add: s2 s1 setItem_def fresh_def)
  from a b JSON_parse_text [OF d1 t1] c d JSON_parse_text [OF d2 t2] e
  show ?thesis by blast
qed

end
